theory Spec2Isabelle
  imports Main "HOL-Library.Word"
begin

section \<open>The thread pool of ol_ThreadPool.h\<close>

text \<open>
  \<open>size_t\<close> is a 64-bit unsigned integer: addition, subtraction and multiplication wrap.
  Containers (\<open>std::vector\<close>, \<open>std::unordered_map\<close>, \<open>std::queue\<close>, \<open>std::deque\<close>) are
  lists; \<open>size()\<close> is the length read as a \<open>size_t\<close>. A thread is known by its id.
\<close>

type_synonym size_t = "64 word"
type_synonym tid = nat

datatype QueueFullPolicy = kReject | kBlock | kTimeout

text \<open>
  What a callable throws when it is invoked: something derived from \<open>std::exception\<close>
  (with its \<open>what()\<close> text) or anything else.
\<close>

datatype exn = Std_exception string | Other_exception

text \<open>
  A \<open>std::function<void()>\<close> is empty or holds a callable. A callable is known by a
  number and by what invoking it does: return (\<open>None\<close>) or throw (\<open>Some e\<close>).
\<close>

datatype task = Empty_function | Callable nat "exn option"

text \<open>
  The visible effects of the pool's operations, in the order they happen.
  \<open>Stderr_unexpected_exception t\<close> is the line
  \<open>"Worker thread(ID:t) unexpected exception"\<close> written to \<open>stderr\<close>.
\<close>

datatype effect =
    Thread_started tid
  | Thread_joined tid
  | Notify_one_NotEmpty
  | Notify_all_NotEmpty
  | Notify_one_NotFull
  | Notify_all_NotFull
  | Notify_one_managerExit
  | Invoked nat
  | Stderr string
  | Stderr_unexpected_exception tid

datatype error = Invalid_argument string | Division_by_zero

text \<open>
  The members of \<open>ThreadPool<IsDynamic>\<close>. The template parameter is the field
  \<open>isDynamic\<close>; the members of \<open>DynamicMembers\<close> follow \<open>m_timeoutMS\<close>.
  \<open>next_tid\<close> is the id the operating system gives to the next thread started, and
  \<open>effects\<close> is the trace of effects so far.
\<close>

record ThreadPool =
  isDynamic :: bool
  m_workers :: "tid list"
  m_taskQueue :: "task list"
  m_stop :: bool
  m_activeWorkers :: size_t
  m_maxQueueSize :: size_t
  m_queueFullPolicy :: QueueFullPolicy
  m_timeoutMS :: int
  minThreads :: size_t
  maxThreads :: size_t
  idleThreads :: size_t
  workerExitNum :: size_t
  checkInterval :: int
  managerThread :: "tid option"
  workerExitId_deque :: "tid list"
  next_tid :: tid
  effects :: "effect list"

definition emit :: "effect \<Rightarrow> ThreadPool \<Rightarrow> ThreadPool" where
  "emit e p = p\<lparr>effects := effects p @ [e]\<rparr>"

definition size_of :: "'a list \<Rightarrow> size_t" where
  "size_of xs = of_nat (length xs)"

subsection \<open>Construction\<close>

text \<open>
  The member initialiser list shared by both constructors: \<open>m_stop(false)\<close>,
  \<open>m_activeWorkers(0)\<close>, the queue capacity, \<open>kReject\<close> and 500 ms. The containers
  start empty and no manager thread exists. The dynamic members are assigned only by
  the dynamic constructor's body; they are 0 here.
\<close>

definition init_members :: "bool \<Rightarrow> size_t \<Rightarrow> tid \<Rightarrow> ThreadPool" where
  "init_members dyn maxQueueSize tid0 =
     \<lparr> isDynamic = dyn, m_workers = [], m_taskQueue = [], m_stop = False,
       m_activeWorkers = 0, m_maxQueueSize = maxQueueSize,
       m_queueFullPolicy = kReject, m_timeoutMS = 500,
       minThreads = 0, maxThreads = 0, idleThreads = 0, workerExitNum = 0,
       checkInterval = 0, managerThread = None, workerExitId_deque = [],
       next_tid = tid0, effects = [] \<rparr>"

text \<open>
  One turn of the thread-creating loops: \<open>m_activeWorkers.fetch_add(1)\<close>, start a thread
  running \<open>worker\<close>, store its handle in \<open>m_workers\<close>.
\<close>

definition start_worker :: "ThreadPool \<Rightarrow> ThreadPool" where
  "start_worker p =
     emit (Thread_started (next_tid p))
       (p\<lparr> m_activeWorkers := m_activeWorkers p + 1,
           m_workers := m_workers p @ [next_tid p],
           next_tid := Suc (next_tid p) \<rparr>)"

text \<open>\<open>while (n > 0) { ...; --n; }\<close>\<close>

function start_workers :: "size_t \<Rightarrow> ThreadPool \<Rightarrow> ThreadPool" where
  "start_workers n p = (if n > 0 then start_workers (n - 1) (start_worker p) else p)"
  by pat_completeness auto
termination
  by (relation "measure (\<lambda>(n, p). unat n)") (auto simp: word_gt_0 unat_minus_one unat_gt_0)

declare start_workers.simps [simp del]

text \<open>The fixed-mode constructor \<open>ThreadPool(threadNum, maxQueueSize)\<close>.\<close>

definition ThreadPool_fixed :: "size_t \<Rightarrow> size_t \<Rightarrow> tid \<Rightarrow> ThreadPool" where
  "ThreadPool_fixed threadNum maxQueueSize tid0 =
     (let p = init_members False maxQueueSize tid0
      in if threadNum = 0 then p\<lparr>m_stop := True\<rparr>
         else start_workers threadNum p)"

text \<open>
  The dynamic-mode constructor
  \<open>ThreadPool(minThreadNum, maxThreadNum, maxQueueSize, checkInterval)\<close>. The throw is
  the \<open>Inl\<close> result.
\<close>

definition start_manager :: "ThreadPool \<Rightarrow> ThreadPool" where
  "start_manager p =
     emit (Thread_started (next_tid p))
       (p\<lparr> managerThread := Some (next_tid p), next_tid := Suc (next_tid p) \<rparr>)"

definition ThreadPool_dynamic ::
  "size_t \<Rightarrow> size_t \<Rightarrow> size_t \<Rightarrow> int \<Rightarrow> tid \<Rightarrow> error + ThreadPool" where
  "ThreadPool_dynamic minThreadNum maxThreadNum maxQueueSize interval tid0 =
     (let p = init_members True maxQueueSize tid0
      in if minThreadNum > maxThreadNum
         then Inl (Invalid_argument ''Invalid thread number range'')
         else if minThreadNum = maxThreadNum \<and> minThreadNum = 0
         then Inr (p\<lparr>m_stop := True\<rparr>)
         else
           let p1 = p\<lparr> minThreads := minThreadNum, maxThreads := maxThreadNum,
                       idleThreads := 0, workerExitNum := 0,
                       checkInterval := interval \<rparr>;
               needThreads = (if minThreadNum = 0 then 1 else minThreadNum);
               p2 = start_workers needThreads p1
           in Inr (start_manager p2))"

subsection \<open>Condition variables\<close>

text \<open>
  A thread parked in a condition-variable wait has released the queue mutex; what the
  other threads and the clock do meanwhile is a list of events. \<open>Notified q\<close>: the
  thread is woken (by a notification or spuriously), takes the mutex again and finds
  the pool in state \<open>q\<close>. \<open>Timer_expired q\<close>: the duration of a timed wait has
  elapsed, and the pool is in state \<open>q\<close> then. How long a duration lasts is not
  modelled. An empty list means that nothing wakes the thread any more.
\<close>

datatype wake = Notified ThreadPool | Timer_expired ThreadPool

text \<open>The pool state that an event carries.\<close>

fun seen :: "wake \<Rightarrow> ThreadPool" where
  "seen (Notified q) = q"
| "seen (Timer_expired q) = q"

text \<open>
  \<open>cv.wait(lock, pred)\<close> is \<open>while (!pred()) wait(lock);\<close>. It returns the state in
  which \<open>pred\<close> held and the events not yet consumed, or \<open>None\<close> when the thread
  stays parked for ever. An untimed wait has no timer.
\<close>

fun cv_wait ::
  "(ThreadPool \<Rightarrow> bool) \<Rightarrow> ThreadPool \<Rightarrow> wake list \<Rightarrow> (ThreadPool \<times> wake list) option" where
  "cv_wait pred p [] = (if pred p then Some (p, []) else None)"
| "cv_wait pred p (w # ws) =
     (if pred p then Some (p, w # ws)
      else case w of
             Notified q \<Rightarrow> cv_wait pred q ws
           | Timer_expired q \<Rightarrow> cv_wait pred p ws)"

text \<open>
  \<open>cv.wait_for(lock, duration, pred)\<close>: as above, but when the timer expires it
  returns \<open>pred()\<close> as evaluated then.
\<close>

fun cv_wait_for ::
  "(ThreadPool \<Rightarrow> bool) \<Rightarrow> ThreadPool \<Rightarrow> wake list \<Rightarrow>
   (bool \<times> ThreadPool \<times> wake list) option" where
  "cv_wait_for pred p [] = (if pred p then Some (True, p, []) else None)"
| "cv_wait_for pred p (w # ws) =
     (if pred p then Some (True, p, w # ws)
      else case w of
             Notified q \<Rightarrow> cv_wait_for pred q ws
           | Timer_expired q \<Rightarrow> Some (pred q, q, ws))"

lemma cv_wait_consumes:
  "cv_wait pred p ws = Some (q, ws') \<Longrightarrow> \<not> pred p \<Longrightarrow> length ws' < length ws"
proof (induction ws arbitrary: p)
  case Nil
  then show ?case by simp
next
  case (Cons w ws)
  show ?case
  proof (cases w)
    case (Notified r)
    show ?thesis
    proof (cases "pred r")
      case True
      with Cons.prems Notified show ?thesis
        by (cases ws) auto
    next
      case False
      with Cons.prems Notified have "cv_wait pred r ws = Some (q, ws')" by simp
      from Cons.IH [OF this False] show ?thesis by simp
    qed
  next
    case (Timer_expired r)
    with Cons.prems have "cv_wait pred p ws = Some (q, ws')" by simp
    from Cons.IH [OF this Cons.prems(2)] show ?thesis by simp
  qed
qed

lemma cv_wait_for_consumes:
  "cv_wait_for pred p ws = Some (b, q, ws') \<Longrightarrow> \<not> pred p \<Longrightarrow> length ws' < length ws"
proof (induction ws arbitrary: p)
  case Nil
  then show ?case by simp
next
  case (Cons w ws)
  show ?case
  proof (cases w)
    case (Notified r)
    show ?thesis
    proof (cases "pred r")
      case True
      with Cons.prems Notified show ?thesis
        by (cases ws) auto
    next
      case False
      with Cons.prems Notified have "cv_wait_for pred r ws = Some (b, q, ws')" by simp
      from Cons.IH [OF this False] show ?thesis by simp
    qed
  next
    case (Timer_expired r)
    with Cons.prems show ?thesis by auto
  qed
qed

subsection \<open>Adding tasks\<close>

text \<open>The predicate of both waits in \<open>addTask\<close>.\<close>

definition notFull_or_stop :: "ThreadPool \<Rightarrow> bool" where
  "notFull_or_stop p \<longleftrightarrow> size_of (m_taskQueue p) < m_maxQueueSize p \<or> m_stop p"

text \<open>
  The loop \<open>while (m_taskQueue.size() >= m_maxQueueSize && !m_stop)\<close> of \<open>addTask\<close>
  with its \<open>switch\<close>. The boolean is \<open>False\<close> when the loop left through one of its
  \<open>return false\<close>, \<open>True\<close> when its condition became false.
\<close>

function addTask_wait ::
  "ThreadPool \<Rightarrow> wake list \<Rightarrow> (bool \<times> ThreadPool \<times> wake list) option" where
  "addTask_wait p ws =
     (if size_of (m_taskQueue p) \<ge> m_maxQueueSize p \<and> \<not> m_stop p then
        (case m_queueFullPolicy p of
           kReject \<Rightarrow> Some (False, p, ws)
         | kBlock \<Rightarrow>
             (case cv_wait notFull_or_stop p ws of
                None \<Rightarrow> None
              | Some (q, ws') \<Rightarrow> addTask_wait q ws')
         | kTimeout \<Rightarrow>
             (case cv_wait_for notFull_or_stop p ws of
                None \<Rightarrow> None
              | Some (result, q, ws') \<Rightarrow>
                  if \<not> result then Some (False, q, ws') else addTask_wait q ws'))
      else Some (True, p, ws))"
  by pat_completeness auto
termination
  apply (relation "measure (\<lambda>(p, ws). length ws)")
    apply simp
   apply (metis (mono_tags, lifting) cv_wait_consumes notFull_or_stop_def in_measure leD
      case_prod_conv)
  apply (metis (mono_tags, lifting) cv_wait_for_consumes notFull_or_stop_def in_measure leD
      case_prod_conv)
  done

declare addTask_wait.simps [simp del]

text \<open>
  \<open>bool addTask(std::function<void()> task)\<close>. The result is \<open>None\<close> when the caller
  stays parked in a wait for ever.
\<close>

definition addTask :: "ThreadPool \<Rightarrow> task \<Rightarrow> wake list \<Rightarrow> (bool \<times> ThreadPool) option" where
  "addTask p t ws =
     (if m_stop p then Some (False, p)
      else
        case (if m_maxQueueSize p > 0 then addTask_wait p ws else Some (True, p, ws)) of
          None \<Rightarrow> None
        | Some (through, q, rest) \<Rightarrow>
            if \<not> through then Some (False, q)
            else if m_stop q then Some (False, q)
            else Some (True, emit Notify_one_NotEmpty
                               (q\<lparr>m_taskQueue := m_taskQueue q @ [t]\<rparr>)))"

text \<open>
  \<open>submitTask(f, args...)\<close>. The callable \<open>f\<close> is wrapped in a \<open>std::packaged_task\<close>,
  which stores what \<open>f\<close> returns or throws in the shared state of its future, so the
  wrapper put on the queue does not throw. A future either belongs to that packaged
  task or holds the \<open>std::runtime_error\<close> set on a fresh promise.
\<close>

datatype future = Future_of_task nat | Future_with_exception string

definition submitTask ::
  "ThreadPool \<Rightarrow> nat \<Rightarrow> wake list \<Rightarrow> ((bool \<times> future) \<times> ThreadPool) option" where
  "submitTask p f ws =
     (case addTask p (Callable f None) ws of
        None \<Rightarrow> None
      | Some (added, q) \<Rightarrow>
          if \<not> added then
            (if m_stop q
             then Some ((False, Future_with_exception ''ThreadPool has been stopped''), q)
             else case m_queueFullPolicy q of
                    kReject \<Rightarrow>
                      Some ((False, Future_with_exception
                               ''Task queue full (Reject policy)''), q)
                  | kBlock \<Rightarrow>
                      Some ((False, Future_with_exception
                               ''Task submission failed in block policy (ThreadPool stopped)''), q)
                  | kTimeout \<Rightarrow>
                      Some ((False, Future_with_exception
                               ''Task queue full (Timeout policy)''), q))
          else Some ((True, Future_of_task f), q))"

definition isRunning :: "ThreadPool \<Rightarrow> bool" where
  "isRunning p \<longleftrightarrow> \<not> m_stop p"

definition getTaskNum :: "ThreadPool \<Rightarrow> size_t" where
  "getTaskNum p = size_of (m_taskQueue p)"

definition getWorkerNum :: "ThreadPool \<Rightarrow> size_t" where
  "getWorkerNum p = size_of (m_workers p)"

definition setRejectPolicy :: "ThreadPool \<Rightarrow> ThreadPool" where
  "setRejectPolicy p = p\<lparr>m_queueFullPolicy := kReject\<rparr>"

definition setBlockPolicy :: "ThreadPool \<Rightarrow> ThreadPool" where
  "setBlockPolicy p = p\<lparr>m_queueFullPolicy := kBlock\<rparr>"

definition setTimeoutPolicy :: "ThreadPool \<Rightarrow> int \<Rightarrow> error + ThreadPool" where
  "setTimeoutPolicy p timeoutMS =
     (if timeoutMS \<le> 0 then Inl (Invalid_argument ''Timeout must be greater than 0'')
      else Inr (p\<lparr>m_queueFullPolicy := kTimeout, m_timeoutMS := timeoutMS\<rparr>))"

subsection \<open>Stopping\<close>

text \<open>
  \<open>th.join()\<close> for every handle of a container, in order. Every handle kept in
  \<open>m_workers\<close> is joinable: only the manager's clean-up joins one before, and it erases
  the handle at once.
\<close>

definition join_all :: "tid list \<Rightarrow> ThreadPool \<Rightarrow> ThreadPool" where
  "join_all ts p = foldl (\<lambda>s t. emit (Thread_joined t) s) p ts"

text \<open>
  \<open>void stop()\<close>. \<open>m_stop.compare_exchange_strong(expected, true)\<close> with
  \<open>expected = false\<close> fails exactly when \<open>m_stop\<close> is already true, and then the
  function returns. The two sleeping loops that wait for \<open>m_activeWorkers\<close> to reach 0
  write nothing. The counters that the worker threads themselves write while they leave
  are the business of \<open>worker_epilogue\<close> below.
\<close>

definition stop :: "ThreadPool \<Rightarrow> ThreadPool" where
  "stop p =
     (if m_stop p then p
      else
        let p1 = p\<lparr>m_stop := True\<rparr>;
            p2 = (if isDynamic p1 then
                    let a = emit Notify_one_managerExit p1;
                        b = (case managerThread a of
                               None \<Rightarrow> a
                             | Some m \<Rightarrow> (emit (Thread_joined m) a)\<lparr>managerThread := None\<rparr>)
                    in b\<lparr>workerExitId_deque := []\<rparr>
                  else p1);
            p3 = emit Notify_all_NotFull (emit Notify_all_NotEmpty p2);
            p4 = join_all (m_workers p3) p3
        in p4\<lparr>m_workers := []\<rparr>)"

subsection \<open>Worker threads\<close>

text \<open>\<open>if (task) task();\<close>: what escapes the call, and the pool afterwards.\<close>

definition invoke :: "task \<Rightarrow> ThreadPool \<Rightarrow> exn option \<times> ThreadPool" where
  "invoke t p =
     (case t of
        Empty_function \<Rightarrow> (None, p)
      | Callable n thrown \<Rightarrow> (thrown, emit (Invoked n) p))"

text \<open>
  The inner \<open>try\<close> block of \<open>worker\<close> with its handlers
  \<open>catch (const std::exception& e)\<close> and \<open>catch (...)\<close>, tried in this order. The first
  component is the exception that leaves the whole statement, if any.
\<close>

definition dispatch :: "task \<Rightarrow> ThreadPool \<Rightarrow> exn option \<times> ThreadPool" where
  "dispatch t p =
     (case invoke t p of
        (None, q) \<Rightarrow> (None, q)
      | (Some (Std_exception what), q) \<Rightarrow>
          (None, emit (Stderr (''Task error: '' @ what @ [CHR 0x0A])) q)
      | (Some Other_exception, q) \<Rightarrow>
          (None, emit (Stderr (''Unknown task error'' @ [CHR 0x0A])) q))"

text \<open>The predicate \<open>waitCond\<close> of the worker's wait.\<close>

definition waitCond :: "ThreadPool \<Rightarrow> bool" where
  "waitCond p \<longleftrightarrow>
     (if isDynamic p then m_taskQueue p \<noteq> [] \<or> m_stop p \<or> workerExitNum p > 0
      else m_taskQueue p \<noteq> [] \<or> m_stop p)"

text \<open>
  The body of the worker's \<open>while (!m_stop)\<close> loop from the point where the wait has
  returned: \<open>Leave\<close> is a \<open>break\<close> (or an exception reaching the outer \<open>catch (...)\<close>,
  which reports it and ends the loop), \<open>Continue\<close> the next turn of the loop.
\<close>

datatype turn = Continue | Leave

definition worker_turn :: "tid \<Rightarrow> ThreadPool \<Rightarrow> turn \<times> ThreadPool" where
  "worker_turn me p =
     (if m_stop p then (Leave, p)
      else if isDynamic p \<and> workerExitNum p > 0
      then (Leave, p\<lparr>workerExitNum := workerExitNum p - 1\<rparr>)
      else
        case m_taskQueue p of
          [] \<Rightarrow> (Continue, p)
        | t # rest \<Rightarrow>
            let p1 = p\<lparr>m_taskQueue := rest\<rparr>;
                p2 = (if m_queueFullPolicy p1 \<noteq> kReject
                      then emit Notify_one_NotFull p1 else p1);
                p3 = (if isDynamic p2 then p2\<lparr>idleThreads := idleThreads p2 - 1\<rparr> else p2)
            in (case dispatch t p3 of
                  (Some e, p4) \<Rightarrow>
                    (Leave, emit (Stderr_unexpected_exception me) p4)
                | (None, p4) \<Rightarrow>
                    (Continue,
                     if isDynamic p4 then p4\<lparr>idleThreads := idleThreads p4 + 1\<rparr>
                     else p4)))"

lemma worker_turn_shrinks:
  "worker_turn me p = (Continue, q) \<Longrightarrow> waitCond p \<Longrightarrow> \<not> m_stop p \<Longrightarrow>
   length (m_taskQueue q) < length (m_taskQueue p)"
  by (auto simp: worker_turn_def waitCond_def dispatch_def invoke_def emit_def Let_def
      split: if_splits list.splits task.splits option.splits exn.splits prod.splits)

text \<open>
  What happens after a worker has left its loop: \<open>m_activeWorkers.fetch_sub(1)\<close> and, in
  dynamic mode, \<open>--idleThreads\<close> and the worker's id put on the exit deque unless the
  pool has stopped.
\<close>

definition worker_epilogue :: "tid \<Rightarrow> ThreadPool \<Rightarrow> ThreadPool" where
  "worker_epilogue me p =
     (let p1 = p\<lparr>m_activeWorkers := m_activeWorkers p - 1\<rparr>
      in if isDynamic p1 then
           let p2 = p1\<lparr>idleThreads := idleThreads p1 - 1\<rparr>
           in if \<not> m_stop p2
              then p2\<lparr>workerExitId_deque := workerExitId_deque p2 @ [me]\<rparr>
              else p2
         else p1)"

text \<open>
  A worker running with no other thread interfering, from the test of
  \<open>while (!m_stop)\<close> on, until it parks in its wait (\<open>Parked\<close>) or has left the
  function (\<open>Finished\<close>).
\<close>

datatype worker_state = Parked | Finished

function worker_loop :: "tid \<Rightarrow> ThreadPool \<Rightarrow> worker_state \<times> ThreadPool" where
  "worker_loop me p =
     (if m_stop p then (Finished, worker_epilogue me p)
      else if \<not> waitCond p then (Parked, p)
      else case worker_turn me p of
             (Leave, q) \<Rightarrow> (Finished, worker_epilogue me q)
           | (Continue, q) \<Rightarrow> worker_loop me q)"
  by pat_completeness auto
termination
  by (relation "measure (\<lambda>(me, p). length (m_taskQueue p))")
     (auto dest: worker_turn_shrinks [OF sym])

declare worker_loop.simps [simp del]

text \<open>\<open>void worker()\<close> from its first statement.\<close>

definition worker :: "tid \<Rightarrow> ThreadPool \<Rightarrow> worker_state \<times> ThreadPool" where
  "worker me p =
     worker_loop me (if isDynamic p then p\<lparr>idleThreads := idleThreads p + 1\<rparr> else p)"

subsection \<open>The manager thread\<close>

text \<open>
  Step 1 of a manager cycle: the exit deque is swapped out, and every id in it that is
  still a key of \<open>m_workers\<close> is joined and erased.
\<close>

definition erase_exited :: "tid \<Rightarrow> ThreadPool \<Rightarrow> ThreadPool" where
  "erase_exited exitId p =
     (if exitId \<in> set (m_workers p)
      then (emit (Thread_joined exitId) p)\<lparr>m_workers := removeAll exitId (m_workers p)\<rparr>
      else p)"

definition manager_cleanup :: "ThreadPool \<Rightarrow> ThreadPool" where
  "manager_cleanup p =
     foldl (\<lambda>s exitId. erase_exited exitId s) (p\<lparr>workerExitId_deque := []\<rparr>)
       (workerExitId_deque p)"

lemma unat_pred_less:
  fixes m :: size_t
  assumes "m \<noteq> 0"
  shows "unat (m - 1) < unat m"
proof -
  from assms have "0 < unat m" by (simp add: unat_gt_0)
  with assms show ?thesis by (simp add: unat_minus_one)
qed

lemma unat_pred_pred:
  fixes n :: size_t
  assumes "n \<noteq> 1"
  shows "unat (n - 2) < unat (n - 1)"
proof -
  from assms have "n - 1 \<noteq> 0" by simp
  from unat_pred_less [OF this] show ?thesis by simp
qed

text \<open>\<open>do { notify_one(); --reduceThreads; } while (reduceThreads > 0);\<close>\<close>

function notify_workers :: "size_t \<Rightarrow> ThreadPool \<Rightarrow> ThreadPool" where
  "notify_workers reduceThreads p =
     (let p1 = emit Notify_one_NotEmpty p;
          r1 = reduceThreads - 1
      in if r1 > 0 then notify_workers r1 p1 else p1)"
  by pat_completeness auto
termination
  by (relation "measure (\<lambda>(n, p). unat (n - 1))")
     (auto simp: word_gt_0 unat_pred_pred)

declare notify_workers.simps [simp del]

text \<open>
  Step 2 of a manager cycle, the block commented \<open>2.\<close> in \<open>manager\<close>: expansion,
  else reduction. With no worker handle left, the expansion branch divides by
  \<open>workerCount = 0\<close>.
\<close>

definition manager_rebalance :: "ThreadPool \<Rightarrow> error + ThreadPool" where
  "manager_rebalance p =
     (let taskCount = size_of (m_taskQueue p);
          workerCount = size_of (m_workers p);
          idleCount = idleThreads p
      in if taskCount > workerCount * 2 \<and> workerCount < maxThreads p then
           (if workerCount = 0 then Inl Division_by_zero
            else
              let needThreads = min (maxThreads p - workerCount)
                                    ((taskCount + workerCount - 1) div workerCount);
                  needThreads = min needThreads (workerCount div 2 + 1)
              in Inr (start_workers needThreads p))
         else if idleCount > workerCount div 2 \<and> workerCount > max (minThreads p) 1 then
           (let minKeep = max (minThreads p) 1;
                reduceThreads = min (workerCount - minKeep) (idleCount - workerCount div 2)
            in if reduceThreads > 0
               then Inr (notify_workers reduceThreads (p\<lparr>workerExitNum := reduceThreads\<rparr>))
               else Inr p)
         else Inr p)"

text \<open>
  One turn of the manager's \<open>while (!m_stop)\<close> loop, from the point where its timed wait
  has returned.
\<close>

definition manager_cycle :: "ThreadPool \<Rightarrow> error + ThreadPool" where
  "manager_cycle p = (if m_stop p then Inr p else manager_rebalance (manager_cleanup p))"

subsection \<open>Reading the trace\<close>

text \<open>
  The numbers of the callables invoked according to a trace, and the numbers of the
  callables held by a list of tasks, both in order.
\<close>

fun invoked_ids :: "effect list \<Rightarrow> nat list" where
  "invoked_ids [] = []"
| "invoked_ids (Invoked n # es) = n # invoked_ids es"
| "invoked_ids (e # es) = invoked_ids es"

fun callable_ids :: "task list \<Rightarrow> nat list" where
  "callable_ids [] = []"
| "callable_ids (Callable n thrown # ts) = n # callable_ids ts"
| "callable_ids (Empty_function # ts) = callable_ids ts"

subsection \<open>Example pools\<close>

text \<open>
  A dynamic pool made by \<open>ThreadPool<true>(2, 8)\<close> whose two workers are busy while
  six tasks wait, and the pool one manager cycle later.
\<close>

definition busy_pool :: ThreadPool where
  "busy_pool =
     \<lparr> isDynamic = True, m_workers = [0, 1],
       m_taskQueue = replicate 6 Empty_function, m_stop = False,
       m_activeWorkers = 2, m_maxQueueSize = 0,
       m_queueFullPolicy = kReject, m_timeoutMS = 500,
       minThreads = 2, maxThreads = 8, idleThreads = 0, workerExitNum = 0,
       checkInterval = 1, managerThread = Some 2, workerExitId_deque = [],
       next_tid = 3, effects = [] \<rparr>"

definition grown_pool :: ThreadPool where
  "grown_pool =
     busy_pool\<lparr> m_activeWorkers := 4, m_workers := [0, 1, 3, 4], next_tid := 5,
                effects := [Thread_started 3, Thread_started 4] \<rparr>"

text \<open>
  A dynamic pool made by \<open>ThreadPool<true>(0, 8)\<close> with a check interval of 0
  seconds, grown to two workers that are both idle now, and the states it goes through
  when the manager runs a second cycle after worker 0 has taken its exit token under
  the queue lock and before it has reported its exit: after the first cycle, after
  worker 0 took the token, after the second cycle, after worker 1 took the token,
  after both workers have run the end of \<open>worker\<close>, after the manager's next cycle,
  and after a task has been added then.
\<close>

definition two_idle :: ThreadPool where
  "two_idle =
     \<lparr> isDynamic = True, m_workers = [0, 1], m_taskQueue = [], m_stop = False,
       m_activeWorkers = 2, m_maxQueueSize = 0,
       m_queueFullPolicy = kReject, m_timeoutMS = 500,
       minThreads = 0, maxThreads = 8, idleThreads = 2, workerExitNum = 0,
       checkInterval = 0, managerThread = Some 2, workerExitId_deque = [],
       next_tid = 3, effects = [] \<rparr>"

definition after_first_cycle :: ThreadPool where
  "after_first_cycle = two_idle\<lparr>workerExitNum := 1, effects := [Notify_one_NotEmpty]\<rparr>"

definition first_token_taken :: ThreadPool where
  "first_token_taken = after_first_cycle\<lparr>workerExitNum := 0\<rparr>"

definition after_second_cycle :: ThreadPool where
  "after_second_cycle =
     first_token_taken\<lparr> workerExitNum := 1,
                         effects := [Notify_one_NotEmpty, Notify_one_NotEmpty] \<rparr>"

definition second_token_taken :: ThreadPool where
  "second_token_taken = after_second_cycle\<lparr>workerExitNum := 0\<rparr>"

definition both_reported :: ThreadPool where
  "both_reported =
     second_token_taken\<lparr> m_activeWorkers := 0, idleThreads := 0,
                          workerExitId_deque := [0, 1] \<rparr>"

definition no_worker_left :: ThreadPool where
  "no_worker_left =
     both_reported\<lparr> m_workers := [], workerExitId_deque := [],
                     effects := [Notify_one_NotEmpty, Notify_one_NotEmpty,
                                 Thread_joined 0, Thread_joined 1] \<rparr>"

definition task_waiting :: ThreadPool where
  "task_waiting =
     no_worker_left\<lparr> m_taskQueue := [Callable 9 None],
                      effects := [Notify_one_NotEmpty, Notify_one_NotEmpty,
                                  Thread_joined 0, Thread_joined 1, Notify_one_NotEmpty] \<rparr>"

text \<open>
  A fixed pool made by \<open>ThreadPool<false>(1, 1)\<close> and switched to the block policy,
  whose queue of capacity 1 holds one task.
\<close>

definition full_pool :: ThreadPool where
  "full_pool =
     \<lparr> isDynamic = False, m_workers = [0], m_taskQueue = [Callable 7 None],
       m_stop = False, m_activeWorkers = 1, m_maxQueueSize = 1,
       m_queueFullPolicy = kBlock, m_timeoutMS = 500,
       minThreads = 0, maxThreads = 0, idleThreads = 0, workerExitNum = 0,
       checkInterval = 0, managerThread = None, workerExitId_deque = [],
       next_tid = 1, effects = [Thread_started 0, Notify_one_NotEmpty] \<rparr>"

text \<open>
  A fixed pool with one worker whose queue holds a task throwing a \<open>std::exception\<close>,
  a task throwing something else, an empty \<open>std::function\<close> and a task that returns.
\<close>

definition faulty_pool :: ThreadPool where
  "faulty_pool =
     \<lparr> isDynamic = False, m_workers = [0],
       m_taskQueue = [Callable 1 (Some (Std_exception ''boom'')),
                      Callable 2 (Some Other_exception), Empty_function, Callable 3 None],
       m_stop = False, m_activeWorkers = 1, m_maxQueueSize = 0,
       m_queueFullPolicy = kReject, m_timeoutMS = 500,
       minThreads = 0, maxThreads = 0, idleThreads = 0, workerExitNum = 0,
       checkInterval = 0, managerThread = None, workerExitId_deque = [],
       next_tid = 1, effects = [Thread_started 0] \<rparr>"

section \<open>The message buffer of the network library\<close>

text \<open>
  The class \<open>Buffer\<close> is declared in the header (its members \<open>m_buf\<close> and \<open>m_sep\<close>,
  and the comment of every method); the bodies of its methods are in no source file at
  hand. Only framing mode 1 (\<open>m_sep = 1\<close>, the default of the constructor) is
  modelled, so \<open>m_sep\<close> is left out of the record. A \<open>std::string\<close> is a list of bytes.
\<close>

type_synonym byte = "8 word"

record Buffer =
  m_buf :: "byte list"

text \<open>
  Modelled from the spec: the body of \<open>Buffer::appendWithSep\<close> is missing; the spec
  says that under framing mode 1 every message on the wire is
  \<open>[4-byte length][payload bytes]\<close>, and the header's comment that the method appends
  the data with a 4-byte header holding the message length. The byte order of the
  header is not given; the least significant byte comes first here, as
  on the hosts the library is built for.
\<close>

definition length_header :: "nat \<Rightarrow> byte list" where
  "length_header n =
     [of_nat n, of_nat (n div 256), of_nat (n div 65536), of_nat (n div 16777216)]"

definition header_length :: "byte list \<Rightarrow> nat" where
  "header_length h =
     (case h of
        [a, b, c, d] \<Rightarrow> unat a + 256 * unat b + 65536 * unat c + 16777216 * unat d
      | _ \<Rightarrow> 0)"

text \<open>
  Modelled from the spec: the body of \<open>Buffer::append\<close> is missing; the header's
  comment says that it appends the data to \<open>m_buf\<close>.
\<close>

definition append_buf :: "Buffer \<Rightarrow> byte list \<Rightarrow> Buffer" where
  "append_buf b data = b\<lparr>m_buf := m_buf b @ data\<rparr>"

definition appendWithSep :: "Buffer \<Rightarrow> byte list \<Rightarrow> Buffer" where
  "appendWithSep b data = b\<lparr>m_buf := m_buf b @ length_header (length data) @ data\<rparr>"

text \<open>
  Modelled from the spec: the body of \<open>Buffer::pickMessage\<close> is missing; the spec says
  that it reads the header, waits for the full payload to accumulate, then extracts
  and erases it, and that it returns false when no complete message is yet available,
  leaving partial data in place. The result is \<open>None\<close> for \<open>false\<close> (the string
  passed by reference is not written) and \<open>Some s\<close> for \<open>true\<close>.
\<close>

definition pickMessage :: "Buffer \<Rightarrow> byte list option \<times> Buffer" where
  "pickMessage b =
     (if length (m_buf b) < 4 then (None, b)
      else
        let len = header_length (take 4 (m_buf b))
        in if length (m_buf b) < 4 + len then (None, b)
           else (Some (take len (drop 4 (m_buf b))), b\<lparr>m_buf := drop (4 + len) (m_buf b)\<rparr>))"

lemma pickMessage_shrinks:
  "pickMessage b = (Some m, b') \<Longrightarrow> length (m_buf b') < length (m_buf b)"
  by (auto simp: pickMessage_def Let_def split: if_splits)

text \<open>\<open>while (buf.pickMessage(s)) ...\<close>: the messages picked until the first \<open>false\<close>.\<close>

function pick_all :: "Buffer \<Rightarrow> byte list list \<times> Buffer" where
  "pick_all b =
     (case pickMessage b of
        (None, b') \<Rightarrow> ([], b')
      | (Some m, b') \<Rightarrow> (case pick_all b' of (ms, b'') \<Rightarrow> (m # ms, b'')))"
  by pat_completeness auto
termination
  by (relation "measure (\<lambda>b. length (m_buf b))") (auto dest: pickMessage_shrinks [OF sym])

declare pick_all.simps [simp del]

text \<open>
  A receiver that appends each chunk read from the connection to its buffer and then
  picks every message that is complete.
\<close>

fun receive :: "Buffer \<Rightarrow> byte list list \<Rightarrow> byte list list \<times> Buffer" where
  "receive b [] = ([], b)"
| "receive b (chunk # chunks) =
     (case pick_all (append_buf b chunk) of
        (ms, b') \<Rightarrow> (case receive b' chunks of (ms', b'') \<Rightarrow> (ms @ ms', b'')))"


text \<open>The bytes that \<open>appendWithSep\<close> adds for one message.\<close>

definition frame :: "byte list \<Rightarrow> byte list" where
  "frame m = length_header (length m) @ m"


section \<open>The interposed connect of the preload library\<close>

text \<open>
  \<open>InetAddr\<close> is declared in ol_InetAddr.h and its bodies are missing: an address is
  taken as what \<open>getIp()\<close> and \<open>getPort()\<close> return for it.
\<close>

record InetAddr =
  getIp :: string
  getPort :: "16 word"

record BlacklistEntry =
  addr :: InetAddr
  url :: string
  mask :: string
  is_domain :: bool

record TimeRange =
  start_time :: int
  end_time :: int


text \<open>
  The arguments of \<open>connect(sockfd, addr, addrlen)\<close>. \<open>as_InetAddr\<close> is what the
  constructor \<open>InetAddr(addr, addrlen)\<close> builds from them, \<open>None\<close> when it throws
  \<open>std::invalid_argument\<close> (the address length is out of range).
\<close>

record connect_args =
  sockfd :: int
  sa_family :: nat
  addrlen :: nat
  as_InetAddr :: "InetAddr option"

text \<open>
  The global variables of the shim once \<open>load_config()\<close> has run (it runs first in every
  call and reads the configuration file once), and the cached pointer \<open>orig_connect\<close>.
\<close>

record shim =
  g_Blacklist :: "BlacklistEntry list"
  g_WhitelistProcs :: "string list"
  g_InterceptTime :: TimeRange
  orig_connect :: "(connect_args \<Rightarrow> int) option"

text \<open>
  What the process and the system answer: \<open>readlink("/proc/self/exe", ...)\<close> (None
  when it fails, else the bytes it put into the buffer), the local time as
  \<open>hour * 100 + minute\<close>, \<open>getaddrinfo\<close> (None when it fails, else the IPv4 and IPv6
  addresses as text) and \<open>dlsym(RTLD_NEXT, "connect")\<close>.
\<close>

record process_env =
  readlink_exe :: "string option"
  current_hhmm :: int
  getaddrinfo :: "string \<Rightarrow> string list option"
  dlsym_connect :: "(connect_args \<Rightarrow> int) option"

text \<open>\<open>return (len > 0) ? string(buf, len) : "unknown_proc";\<close>\<close>

definition get_current_proc_path :: "process_env \<Rightarrow> string" where
  "get_current_proc_path env =
     (case readlink_exe env of
        None \<Rightarrow> ''unknown_proc''
      | Some target \<Rightarrow> if length target > 0 then target else ''unknown_proc'')"

definition is_in_intercept_time :: "shim \<Rightarrow> process_env \<Rightarrow> bool" where
  "is_in_intercept_time g env =
     (let current = current_hhmm env;
          start = start_time (g_InterceptTime g);
          finish = end_time (g_InterceptTime g)
      in if start > finish then current \<ge> start \<or> current \<le> finish
         else current \<ge> start \<and> current \<le> finish)"

definition resolve_url_to_ips :: "process_env \<Rightarrow> string \<Rightarrow> bool \<times> string list" where
  "resolve_url_to_ips env target =
     (case getaddrinfo env target of
        None \<Rightarrow> (False, [])
      | Some ips \<Rightarrow> (ips \<noteq> [], ips))"

text \<open>
  \<open>if (s.find("/usr/bin/") == 0) s.replace(0, 4, "/bin");\<close> replaces the first four
  characters.
\<close>

definition simplify_path :: "string \<Rightarrow> string" where
  "simplify_path path =
     (if take 9 path = ''/usr/bin/'' then ''/bin'' @ drop 4 path else path)"

fun whitelist_loop :: "string \<Rightarrow> string list \<Rightarrow> bool" where
  "whitelist_loop path [] = False"
| "whitelist_loop path (white_proc # rest) =
     (if path = white_proc \<or> simplify_path path = simplify_path white_proc then True
      else whitelist_loop path rest)"

definition is_proc_whitelisted :: "shim \<Rightarrow> process_env \<Rightarrow> bool" where
  "is_proc_whitelisted g env =
     (let proc_path = get_current_proc_path env
      in if proc_path = [] then False
         else whitelist_loop proc_path (g_WhitelistProcs g))"

text \<open>The body of the loop over \<open>g_Blacklist\<close> in \<open>is_blocked\<close>: true for \<open>return true\<close>.\<close>

definition entry_blocks :: "process_env \<Rightarrow> InetAddr \<Rightarrow> BlacklistEntry \<Rightarrow> bool" where
  "entry_blocks env target_addr entry =
     (let port_match = (getPort (addr entry) = 0 \<or> getPort (addr entry) = getPort target_addr)
      in if port_match \<and> getIp (addr entry) = ''*'' then True
         else if port_match \<and> getIp (addr entry) = getIp target_addr then True
         else if is_domain entry \<and> url entry \<noteq> [] then
           (let port_match_domain =
                  (getPort (addr entry) = 0 \<or> getPort (addr entry) = getPort target_addr)
            in if port_match_domain then
                 (case resolve_url_to_ips env (url entry) of
                    (True, resolved_ips) \<Rightarrow> getIp target_addr \<in> set resolved_ips
                  | (False, resolved_ips) \<Rightarrow> False)
               else False)
         else False)"

fun blacklist_loop :: "process_env \<Rightarrow> InetAddr \<Rightarrow> BlacklistEntry list \<Rightarrow> bool" where
  "blacklist_loop env target_addr [] = False"
| "blacklist_loop env target_addr (entry # rest) =
     (if entry_blocks env target_addr entry then True
      else blacklist_loop env target_addr rest)"

definition is_blocked :: "shim \<Rightarrow> process_env \<Rightarrow> InetAddr \<Rightarrow> bool" where
  "is_blocked g env target_addr =
     (if \<not> is_in_intercept_time g env then False
      else blacklist_loop env target_addr (g_Blacklist g))"



subsection \<open>Example calls\<close>











section \<open>Properties of the thread pool\<close>

subsection \<open>Construction\<close>

text \<open>The thread-creating loop run \<open>n\<close> times, in closed form.\<close>

lemma start_workers_eq:
  "start_workers n p =
     p\<lparr> m_activeWorkers := m_activeWorkers p + n,
        m_workers := m_workers p @ [next_tid p ..< next_tid p + unat n],
        next_tid := next_tid p + unat n,
        effects := effects p @ map Thread_started [next_tid p ..< next_tid p + unat n] \<rparr>"
proof (induction n p rule: start_workers.induct)
  case (1 n p)
  show ?case
  proof (cases "n = 0")
    case True
    then show ?thesis by (subst start_workers.simps) simp
  next
    case False
    then have pos: "0 < n" "0 < unat n" by (simp_all add: word_gt_0 unat_gt_0)
    have un: "unat n = Suc (unat (n - 1))"
      using False pos by (simp add: unat_minus_one)
    have up: "[next_tid p ..< next_tid p + unat n]
              = next_tid p # [Suc (next_tid p) ..< Suc (next_tid p) + unat (n - 1)]"
      unfolding un by (simp add: upt_rec)
    show ?thesis
      using pos(1)
      apply (subst start_workers.simps)
      apply (simp add: "1.IH" [OF pos(1)] del: upt_Suc)
      apply (simp add: start_worker_def emit_def un upt_conv_Cons del: upt_Suc)
      done
  qed
qed

lemma addTask_stopped: "m_stop p \<Longrightarrow> addTask p t ws = Some (False, p)"
  by (simp add: addTask_def)

lemma submitTask_stopped:
  "m_stop p \<Longrightarrow>
   submitTask p f ws = Some ((False, Future_with_exception ''ThreadPool has been stopped''), p)"
  by (simp add: submitTask_def addTask_stopped)


text \<open>
  Claim C9. A fixed-mode pool constructed with \<open>threadNum = 0\<close> is stopped from the
  start: no thread was started, the worker container and the queue are empty,
  \<open>isRunning\<close> is false, and \<open>addTask\<close> and \<open>submitTask\<close> fail and return the pool as
  it was, so that every later call meets the same stopped pool and fails the same way.
\<close>

theorem fixed_pool_of_zero_threads_is_stopped:
  "let p = ThreadPool_fixed 0 maxQueueSize tid0
   in m_stop p \<and> \<not> isRunning p \<and> m_workers p = [] \<and> effects p = []
      \<and> m_activeWorkers p = 0 \<and> m_taskQueue p = []
      \<and> addTask p t ws = Some (False, p)
      \<and> submitTask p f ws'
          = Some ((False, Future_with_exception ''ThreadPool has been stopped''), p)"
proof -
  have s: "m_stop (ThreadPool_fixed 0 maxQueueSize tid0)"
    by (simp add: ThreadPool_fixed_def init_members_def)
  show ?thesis
    unfolding Let_def
    using addTask_stopped [OF s] submitTask_stopped [OF s]
    by (simp add: ThreadPool_fixed_def init_members_def isRunning_def)
qed


text \<open>
  Claim C10. The dynamic-mode constructor throws \<open>std::invalid_argument\<close> when
  \<open>minThreadNum > maxThreadNum\<close>; with both 0 it returns a stopped pool with no thread
  at all; otherwise it starts \<open>max(minThreadNum, 1)\<close> workers and then one manager
  thread.
\<close>

theorem dynamic_constructor_cases:
  "(minThreadNum > maxThreadNum \<longrightarrow>
      ThreadPool_dynamic minThreadNum maxThreadNum maxQueueSize interval tid0
        = Inl (Invalid_argument ''Invalid thread number range''))
   \<and> (minThreadNum = 0 \<and> maxThreadNum = 0 \<longrightarrow>
      (\<exists>p. ThreadPool_dynamic minThreadNum maxThreadNum maxQueueSize interval tid0 = Inr p
         \<and> m_stop p \<and> m_workers p = [] \<and> managerThread p = None \<and> effects p = []))
   \<and> (minThreadNum \<le> maxThreadNum \<and> maxThreadNum \<noteq> 0 \<longrightarrow>
      (\<exists>p m. ThreadPool_dynamic minThreadNum maxThreadNum maxQueueSize interval tid0 = Inr p
         \<and> \<not> m_stop p
         \<and> length (m_workers p) = max (unat minThreadNum) 1
         \<and> distinct (m_workers p)
         \<and> m_activeWorkers p = max minThreadNum 1
         \<and> managerThread p = Some m \<and> m \<notin> set (m_workers p)
         \<and> effects p = map Thread_started (m_workers p) @ [Thread_started m]))"
proof (intro conjI impI)
  assume "maxThreadNum < minThreadNum"
  then show "ThreadPool_dynamic minThreadNum maxThreadNum maxQueueSize interval tid0
        = Inl (Invalid_argument ''Invalid thread number range'')"
    by (simp add: ThreadPool_dynamic_def)
next
  assume "minThreadNum = 0 \<and> maxThreadNum = 0"
  then show "\<exists>p. ThreadPool_dynamic minThreadNum maxThreadNum maxQueueSize interval tid0 = Inr p
         \<and> m_stop p \<and> m_workers p = [] \<and> managerThread p = None \<and> effects p = []"
    by (simp add: ThreadPool_dynamic_def init_members_def)
next
  assume a: "minThreadNum \<le> maxThreadNum \<and> maxThreadNum \<noteq> 0"
  then have le: "\<not> maxThreadNum < minThreadNum" and nz: "\<not> (minThreadNum = maxThreadNum \<and> minThreadNum = 0)"
    by auto
  define need :: size_t where "need = (if minThreadNum = 0 then 1 else minThreadNum)"
  have one_le: "1 \<le> minThreadNum" if "minThreadNum \<noteq> 0"
    using that by (simp add: word_le_nat_alt unat_gt_0 Suc_le_eq)
  have need_max: "need = max minThreadNum 1"
    using one_le by (auto simp: need_def max_def)
  have pos: "0 < unat minThreadNum" if "minThreadNum \<noteq> 0"
    using that by (simp add: unat_gt_0)
  have need_unat: "unat need = max (unat minThreadNum) 1"
    using pos by (cases "minThreadNum = 0") (auto simp: need_def max_def)
  show "\<exists>p m. ThreadPool_dynamic minThreadNum maxThreadNum maxQueueSize interval tid0 = Inr p
         \<and> \<not> m_stop p
         \<and> length (m_workers p) = max (unat minThreadNum) 1
         \<and> distinct (m_workers p)
         \<and> m_activeWorkers p = max minThreadNum 1
         \<and> managerThread p = Some m \<and> m \<notin> set (m_workers p)
         \<and> effects p = map Thread_started (m_workers p) @ [Thread_started m]"
    using le nz need_max need_unat
    by (simp add: ThreadPool_dynamic_def Let_def start_workers_eq start_manager_def emit_def
        init_members_def need_def [symmetric])
qed

theorem dynamic_constructor_cases_witness:
  "ThreadPool_dynamic 3 2 0 1 0 = Inl (Invalid_argument ''Invalid thread number range'')
   \<and> (\<exists>p. ThreadPool_dynamic 0 0 0 1 0 = Inr p \<and> m_stop p \<and> m_workers p = [])
   \<and> (\<exists>p. ThreadPool_dynamic 0 4 0 1 0 = Inr p \<and> \<not> m_stop p \<and> length (m_workers p) = 1
          \<and> managerThread p \<noteq> None)
   \<and> (\<exists>p. ThreadPool_dynamic 2 4 0 1 0 = Inr p \<and> \<not> m_stop p \<and> length (m_workers p) = 2
          \<and> managerThread p \<noteq> None)"
  using dynamic_constructor_cases [of 2 3 0 1 0]
        dynamic_constructor_cases [of 0 0 0 1 0]
        dynamic_constructor_cases [of 4 0 0 1 0]
        dynamic_constructor_cases [of 4 2 0 1 0]
  by auto


subsection \<open>The manager: expansion\<close>

lemma unat_size_of: "length xs < 2 ^ 64 \<Longrightarrow> unat (size_of xs) = length xs"
  by (simp add: size_of_def unat_of_nat)

lemma notify_workers_eq:
  "n \<noteq> 0 \<Longrightarrow>
   notify_workers n p = p\<lparr>effects := effects p @ replicate (unat n) Notify_one_NotEmpty\<rparr>"
proof (induction n p rule: notify_workers.induct)
  case (1 n p)
  from "1.prems" have un: "unat n = Suc (unat (n - 1))"
    by (simp add: unat_minus_one unat_gt_0)
  show ?case
  proof (cases "n - 1 = 0")
    case True
    with un show ?thesis
      by (subst notify_workers.simps) (simp add: emit_def)
  next
    case False
    then have pos: "0 < n - 1" by (simp add: word_gt_0)
    have ih: "notify_workers (n - 1) (emit Notify_one_NotEmpty p)
              = (emit Notify_one_NotEmpty p)
                  \<lparr>effects := effects (emit Notify_one_NotEmpty p)
                                @ replicate (unat (n - 1)) Notify_one_NotEmpty\<rparr>"
      using "1.IH" [OF refl refl pos False] .
    show ?thesis
      apply (subst notify_workers.simps)
      apply (simp only: Let_def pos if_True ih)
      apply (simp add: emit_def un replicate_append_same)
      done
  qed
qed

text \<open>The arithmetic of the expansion branch, on natural numbers.\<close>

lemma expansion_bounds:
  fixes tc wc mx :: size_t
  assumes "unat wc < 2 ^ 63" "unat tc < 2 ^ 63" "wc < mx" "wc \<noteq> 0"
  defines "need \<equiv> min (min (mx - wc) ((tc + wc - 1) div wc)) (wc div 2 + 1)"
  shows "unat need \<le> unat wc div 2 + 1" "unat wc + unat need \<le> unat mx"
proof -
  have "need \<le> wc div 2 + 1" "need \<le> mx - wc"
    by (simp_all add: need_def min.coboundedI1)
  then have a: "unat need \<le> unat (wc div 2 + 1)" "unat need \<le> unat (mx - wc)"
    by (simp_all add: word_le_nat_alt)
  have "unat (wc div 2 + 1) = unat wc div 2 + 1"
    using assms(1) by (simp add: unat_div unat_word_ariths)
  with a show "unat need \<le> unat wc div 2 + 1" by simp
  have "unat (mx - wc) = unat mx - unat wc"
    using assms(3) by (simp add: unat_sub word_less_nat_alt word_le_nat_alt)
  moreover have "unat wc < unat mx" using assms(3) by (simp add: word_less_nat_alt)
  ultimately show "unat wc + unat need \<le> unat mx" using a by simp
qed


lemma rebalance_busy_pool: "manager_rebalance busy_pool = Inr grown_pool"
  by (simp add: manager_rebalance_def busy_pool_def grown_pool_def size_of_def
      start_workers_eq upt_conv_Cons)

text \<open>
  Claim C1: the workers added in one cycle are at most 50% of the current worker count
  (the comment above the cap in \<open>manager\<close> says that one cycle expands to at most 1.5
  times the current count). The code does not keep to it: with two workers, six
  pending tasks and a maximum of eight, \<open>needThreads\<close> is
  \<open>min(min(8 - 2, (6 + 2 - 1) / 2), 2 / 2 + 1) = 2\<close>, and one cycle goes from two
  workers to four.
\<close>

theorem expansion_adds_more_than_half:
  "manager_rebalance busy_pool = Inr grown_pool
   \<and> length (m_workers busy_pool) = 2
   \<and> length (m_workers grown_pool) = 4
   \<and> \<not> 2 * (length (m_workers grown_pool) - length (m_workers busy_pool))
        \<le> length (m_workers busy_pool)"
  by (simp add: rebalance_busy_pool) (simp add: busy_pool_def grown_pool_def)

text \<open>
  What the expansion branch does as written. With at least one worker handle, step 2
  of a manager cycle returns normally, and if it changed the worker container then the
  pending tasks exceeded twice the worker count, the worker count was below
  \<open>maxThreads\<close>, workers were only added, and the new count does not exceed
  \<open>maxThreads\<close>. The number added is bounded by the cap the code applies,
  \<open>workerCount / 2 + 1\<close>, which is one more than the half that its comment states.
\<close>

lemma manager_expansion_as_written:
  assumes "length (m_workers p) < 2 ^ 63" and "length (m_taskQueue p) < 2 ^ 63"
      and "m_workers p \<noteq> []"
  shows "\<exists>p'. manager_rebalance p = Inr p'
           \<and> (m_workers p' \<noteq> m_workers p \<longrightarrow>
                 2 * length (m_workers p) < length (m_taskQueue p)
               \<and> length (m_workers p) < unat (maxThreads p)
               \<and> length (m_workers p) < length (m_workers p')
               \<and> length (m_workers p') - length (m_workers p)
                   \<le> length (m_workers p) div 2 + 1
               \<and> length (m_workers p') \<le> unat (maxThreads p))"
proof -
  define tc where "tc = size_of (m_taskQueue p)"
  define wc where "wc = size_of (m_workers p)"
  have utc: "unat tc = length (m_taskQueue p)"
    unfolding tc_def using assms(2) by (intro unat_size_of) simp
  have uwc: "unat wc = length (m_workers p)"
    unfolding wc_def using assms(1) by (intro unat_size_of) simp
  from assms(3) uwc have wnz: "wc \<noteq> 0" by (auto simp: unat_eq_zero [symmetric])
  have dbl: "unat (wc * 2) = 2 * unat wc"
    using assms(1) uwc by (simp add: unat_word_ariths)
  show ?thesis
  proof (cases "tc > wc * 2 \<and> wc < maxThreads p")
    case True
    define need where
      "need = min (min (maxThreads p - wc) ((tc + wc - 1) div wc)) (wc div 2 + 1)"
    have r: "manager_rebalance p = Inr (start_workers need p)"
      using True wnz
      by (simp add: manager_rebalance_def Let_def tc_def [symmetric] wc_def [symmetric] need_def)
    have b: "unat need \<le> unat wc div 2 + 1" "unat wc + unat need \<le> unat (maxThreads p)"
      unfolding need_def
      using expansion_bounds [of wc tc "maxThreads p"] True wnz assms(1,2) uwc utc by simp_all
    from True have c: "2 * unat wc < unat tc" "unat wc < unat (maxThreads p)"
      by (simp_all add: word_less_nat_alt dbl)
    have len: "length (m_workers (start_workers need p)) = length (m_workers p) + unat need"
      by (simp add: start_workers_eq)
    have grow: "m_workers (start_workers need p) \<noteq> m_workers p \<Longrightarrow> 0 < unat need"
      by (cases "unat need = 0") (simp_all add: start_workers_eq)
    show ?thesis
      using r b c len grow uwc utc by auto
  next
    case False
    have same: "\<exists>p'. manager_rebalance p = Inr p' \<and> m_workers p' = m_workers p"
      using False
      by (auto simp: manager_rebalance_def Let_def tc_def [symmetric] wc_def [symmetric]
          notify_workers_eq word_gt_0)
    then show ?thesis by auto
  qed
qed

subsection \<open>Workers leaving on request\<close>

lemma dispatch_no_escape: "fst (dispatch t p) = None"
  by (simp add: dispatch_def invoke_def split: task.splits option.splits exn.splits)

lemma dispatch_keeps:
  "dispatch t p = (e, q) \<Longrightarrow>
     m_workers q = m_workers p \<and> m_stop q = m_stop p \<and> isDynamic q = isDynamic p
   \<and> minThreads q = minThreads p \<and> workerExitNum q = workerExitNum p
   \<and> workerExitId_deque q = workerExitId_deque p \<and> m_taskQueue q = m_taskQueue p
   \<and> idleThreads q = idleThreads p \<and> m_queueFullPolicy q = m_queueFullPolicy p"
  by (auto simp: dispatch_def invoke_def emit_def split: task.splits option.splits exn.splits)

text \<open>
  A worker of a running dynamic pool whose wait has returned while an exit token is
  left takes exactly one token and leaves its loop without taking a task.
\<close>

lemma worker_takes_one_token:
  assumes "\<not> m_stop p" "isDynamic p" "workerExitNum p \<noteq> 0"
  shows "worker_turn w p = (Leave, p\<lparr>workerExitNum := workerExitNum p - 1\<rparr>)"
  using assms by (simp add: worker_turn_def word_gt_0)

lemma erase_exited_keeps:
  "isDynamic (erase_exited i s) = isDynamic s \<and> m_stop (erase_exited i s) = m_stop s
   \<and> m_taskQueue (erase_exited i s) = m_taskQueue s
   \<and> minThreads (erase_exited i s) = minThreads s
   \<and> maxThreads (erase_exited i s) = maxThreads s
   \<and> idleThreads (erase_exited i s) = idleThreads s
   \<and> workerExitNum (erase_exited i s) = workerExitNum s
   \<and> workerExitId_deque (erase_exited i s) = workerExitId_deque s
   \<and> count_list (effects (erase_exited i s)) Notify_one_NotEmpty
       = count_list (effects s) Notify_one_NotEmpty"
  by (simp add: erase_exited_def emit_def)

lemma erase_exited_workers:
  "distinct (m_workers s) \<Longrightarrow>
   distinct (m_workers (erase_exited i s))
   \<and> length (m_workers s) \<le> Suc (length (m_workers (erase_exited i s)))
   \<and> length (m_workers (erase_exited i s)) \<le> length (m_workers s)"
  by (auto simp: erase_exited_def emit_def distinct_remove1_removeAll [symmetric]
      length_remove1)

lemma erase_all_keeps:
  "isDynamic (foldl (\<lambda>s i. erase_exited i s) s is) = isDynamic s
   \<and> m_stop (foldl (\<lambda>s i. erase_exited i s) s is) = m_stop s
   \<and> m_taskQueue (foldl (\<lambda>s i. erase_exited i s) s is) = m_taskQueue s
   \<and> minThreads (foldl (\<lambda>s i. erase_exited i s) s is) = minThreads s
   \<and> maxThreads (foldl (\<lambda>s i. erase_exited i s) s is) = maxThreads s
   \<and> idleThreads (foldl (\<lambda>s i. erase_exited i s) s is) = idleThreads s
   \<and> workerExitNum (foldl (\<lambda>s i. erase_exited i s) s is) = workerExitNum s
   \<and> workerExitId_deque (foldl (\<lambda>s i. erase_exited i s) s is) = workerExitId_deque s
   \<and> count_list (effects (foldl (\<lambda>s i. erase_exited i s) s is)) Notify_one_NotEmpty
       = count_list (effects s) Notify_one_NotEmpty"
  by (induction "is" arbitrary: s) (simp_all add: erase_exited_keeps)

lemma erase_all_workers:
  "distinct (m_workers s) \<Longrightarrow>
   distinct (m_workers (foldl (\<lambda>s i. erase_exited i s) s is))
   \<and> length (m_workers s) \<le> length is + length (m_workers (foldl (\<lambda>s i. erase_exited i s) s is))
   \<and> length (m_workers (foldl (\<lambda>s i. erase_exited i s) s is)) \<le> length (m_workers s)"
proof (induction "is" arbitrary: s)
  case Nil
  then show ?case by simp
next
  case (Cons i "is")
  note e = erase_exited_workers [OF Cons.prems, of i]
  from e have d: "distinct (m_workers (erase_exited i s))" by simp
  from Cons.IH [OF d] e show ?case by simp
qed

lemma reduction_bounds:
  fixes wc idle mn :: size_t
  assumes "idle > wc div 2" "wc > max mn 1"
  defines "reduce \<equiv> min (wc - max mn 1) (idle - wc div 2)"
  shows "reduce \<noteq> 0" "unat reduce + max (unat mn) 1 \<le> unat wc"
    "unat (wc div 2) < unat idle" "max (unat mn) 1 < unat wc"
proof -
  have m: "unat (max mn 1) = max (unat mn) 1"
    by (simp add: max_def word_le_nat_alt)
  from assms(2) have lt: "max (unat mn) 1 < unat wc"
    by (simp add: word_less_nat_alt m)
  then show "max (unat mn) 1 < unat wc" .
  have s1: "unat (wc - max mn 1) = unat wc - max (unat mn) 1"
    using assms(2) by (simp add: unat_sub word_less_nat_alt word_le_nat_alt m)
  from assms(1) show i: "unat (wc div 2) < unat idle" by (simp add: word_less_nat_alt)
  have s2: "unat (idle - wc div 2) = unat idle - unat (wc div 2)"
    using assms(1) by (simp add: unat_sub word_less_nat_alt word_le_nat_alt)
  have u: "unat reduce = min (unat wc - max (unat mn) 1) (unat idle - unat (wc div 2))"
    unfolding reduce_def by (simp add: min_def word_le_nat_alt s1 s2)
  from u lt i have "0 < unat reduce" by simp
  then show "reduce \<noteq> 0" by (simp add: unat_gt_0)
  from u lt show "unat reduce + max (unat mn) 1 \<le> unat wc" by linarith
qed

subsection \<open>The manager: reduction\<close>

lemma manager_cleanup_keeps:
  "isDynamic (manager_cleanup p) = isDynamic p \<and> m_stop (manager_cleanup p) = m_stop p
   \<and> m_taskQueue (manager_cleanup p) = m_taskQueue p
   \<and> minThreads (manager_cleanup p) = minThreads p
   \<and> maxThreads (manager_cleanup p) = maxThreads p
   \<and> idleThreads (manager_cleanup p) = idleThreads p
   \<and> workerExitNum (manager_cleanup p) = workerExitNum p
   \<and> workerExitId_deque (manager_cleanup p) = []
   \<and> count_list (effects (manager_cleanup p)) Notify_one_NotEmpty
       = count_list (effects p) Notify_one_NotEmpty"
  unfolding manager_cleanup_def
  using erase_all_keeps [of "p\<lparr>workerExitId_deque := []\<rparr>" "workerExitId_deque p"]
  by simp

lemma manager_cleanup_workers:
  assumes "distinct (m_workers p)"
  shows "distinct (m_workers (manager_cleanup p))"
    "length (m_workers p)
       \<le> length (workerExitId_deque p) + length (m_workers (manager_cleanup p))"
    "length (m_workers (manager_cleanup p)) \<le> length (m_workers p)"
  unfolding manager_cleanup_def
  using erase_all_workers [of "p\<lparr>workerExitId_deque := []\<rparr>" "workerExitId_deque p"] assms
  by simp_all

lemma count_list_replicate_same: "count_list (replicate n x) x = n"
  by (induction n) simp_all

lemma count_list_started: "count_list (map Thread_started ts) Notify_one_NotEmpty = 0"
  by (induction ts) simp_all

text \<open>What step 2 of a cycle does, branch by branch.\<close>

lemma manager_rebalance_cases:
  "(\<exists>e. manager_rebalance c = Inl e)
   \<or> (\<exists>n. manager_rebalance c = Inr (start_workers n c))
   \<or> manager_rebalance c = Inr c
   \<or> (idleThreads c > size_of (m_workers c) div 2
        \<and> size_of (m_workers c) > max (minThreads c) 1
        \<and> manager_rebalance c =
            Inr (c\<lparr> workerExitNum :=
                       min (size_of (m_workers c) - max (minThreads c) 1)
                           (idleThreads c - size_of (m_workers c) div 2),
                     effects := effects c @
                       replicate
                         (unat (min (size_of (m_workers c) - max (minThreads c) 1)
                                    (idleThreads c - size_of (m_workers c) div 2)))
                         Notify_one_NotEmpty \<rparr>))"
  by (auto simp: manager_rebalance_def Let_def word_gt_0 notify_workers_eq)

text \<open>
  What one cycle guarantees about the worker count it read. A manager cycle of a
  running dynamic pool that signals workers to leave does so only when the idle count
  exceeds half the worker count and the worker count exceeds \<open>max(minThreads, 1)\<close>;
  \<open>workerExitNum\<close> is set to the number of signals sent; and the worker count read
  by the cycle less that number is at least \<open>max(minThreads, 1)\<close>, for every count
  and every \<open>minThreads\<close>.
\<close>

lemma manager_reduction_per_cycle:
  assumes "isDynamic p" and "\<not> m_stop p" and "distinct (m_workers p)"
      and "length (m_workers p) < 2 ^ 64"
      and "manager_cycle p = Inr p'"
      and "count_list (effects p) Notify_one_NotEmpty
             < count_list (effects p') Notify_one_NotEmpty"
  shows "m_workers p' = m_workers (manager_cleanup p)
       \<and> length (m_workers p') div 2 < unat (idleThreads p)
       \<and> max (unat (minThreads p)) 1 < length (m_workers p')
       \<and> unat (workerExitNum p')
           = count_list (effects p') Notify_one_NotEmpty
             - count_list (effects p) Notify_one_NotEmpty
       \<and> max (unat (minThreads p)) 1 \<le> length (m_workers p') - unat (workerExitNum p')"
proof -
  define c where "c = manager_cleanup p"
  note ck = manager_cleanup_keeps [of p, folded c_def]
  note cw = manager_cleanup_workers [OF assms(3), folded c_def]
  from assms(2,5) have r: "manager_rebalance c = Inr p'"
    by (simp add: manager_cycle_def c_def)
  define wc where "wc = size_of (m_workers c)"
  define reduce where
    "reduce = min (wc - max (minThreads c) 1) (idleThreads c - wc div 2)"
  have uwc: "unat wc = length (m_workers c)"
    unfolding wc_def using cw(3) assms(4) by (intro unat_size_of) simp
  have cnt: "count_list (effects c) Notify_one_NotEmpty < count_list (effects p') Notify_one_NotEmpty"
    using assms(6) ck by simp
  from manager_rebalance_cases [of c] r cnt
  have red: "idleThreads c > wc div 2 \<and> wc > max (minThreads c) 1
      \<and> p' = c\<lparr>workerExitNum := reduce,
                effects := effects c @ replicate (unat reduce) Notify_one_NotEmpty\<rparr>"
    unfolding wc_def reduce_def
    by (auto simp: start_workers_eq count_list_started)
  then have p': "p' = c\<lparr>workerExitNum := reduce,
                effects := effects c @ replicate (unat reduce) Notify_one_NotEmpty\<rparr>"
    by simp
  from red have b: "reduce \<noteq> 0" "unat reduce + max (unat (minThreads c)) 1 \<le> unat wc"
      "unat (wc div 2) < unat (idleThreads c)" "max (unat (minThreads c)) 1 < unat wc"
    unfolding reduce_def
    using reduction_bounds [of wc "idleThreads c" "minThreads c"] by simp_all
  define keep where "keep = max (unat (minThreads p)) 1"
  have mt: "minThreads c = minThreads p" using ck by simp
  have b2: "unat reduce + keep \<le> length (m_workers c)"
    using b(2) unfolding keep_def mt uwc .
  have half: "unat (wc div 2) = unat wc div 2" by (simp add: unat_div)
  have 1: "m_workers p' = m_workers (manager_cleanup p)" by (simp add: p' c_def)
  have 2: "length (m_workers p') div 2 < unat (idleThreads p)"
    using b(3) half uwc ck by (simp add: p')
  have 3: "max (unat (minThreads p)) 1 < length (m_workers p')"
    using b(4) uwc ck by (simp add: p')
  have 4: "unat (workerExitNum p')
           = count_list (effects p') Notify_one_NotEmpty
             - count_list (effects p) Notify_one_NotEmpty"
    using ck by (simp add: p' count_list_replicate_same)
  have "keep \<le> length (m_workers c) - unat reduce"
    using b2 by linarith
  then have 5: "max (unat (minThreads p)) 1 \<le> length (m_workers p') - unat (workerExitNum p')"
    unfolding keep_def by (simp add: p')
  from 1 2 3 4 5 show ?thesis by blast
qed

text \<open>
  Claim C2: the threads that a manager cycle signals to leave never bring the worker
  count below \<open>max(minThreads, 1)\<close>. The code does not keep to it. A worker takes its
  exit token while it holds the queue lock, and decrements \<open>idleThreads\<close> and reports
  its id only after it has released the lock and left its loop; a manager cycle that
  runs in between still counts that worker in \<open>m_workers.size()\<close> and in
  \<open>idleThreads\<close>, and signals again. With two idle workers and \<open>minThreads = 0\<close>
  (floor 1): the first cycle signals one worker, worker 0 takes the token, the second
  cycle signals one worker again, worker 1 takes that token, both report, and the next
  clean-up leaves no worker handle at all. A task added then is never run, and the
  cycle after it divides by a worker count of zero.
\<close>

theorem reduction_race_leaves_no_worker:
  "manager_cycle two_idle = Inr after_first_cycle
   \<and> worker_turn 0 after_first_cycle = (Leave, first_token_taken)
   \<and> manager_cycle first_token_taken = Inr after_second_cycle
   \<and> worker_turn 1 after_second_cycle = (Leave, second_token_taken)
   \<and> worker_epilogue 1 (worker_epilogue 0 second_token_taken) = both_reported
   \<and> manager_cycle both_reported = Inr no_worker_left
   \<and> max (unat (minThreads two_idle)) 1 = 1
   \<and> length (m_workers no_worker_left) = 0
   \<and> addTask no_worker_left (Callable 9 None) [] = Some (True, task_waiting)
   \<and> manager_cycle task_waiting = Inl Division_by_zero"
proof -
  have 1: "manager_cycle two_idle = Inr after_first_cycle"
    by (simp add: manager_cycle_def manager_cleanup_def manager_rebalance_def two_idle_def
        after_first_cycle_def size_of_def notify_workers_eq)
  have 2: "worker_turn 0 after_first_cycle = (Leave, first_token_taken)"
    by (simp add: worker_turn_def two_idle_def after_first_cycle_def first_token_taken_def)
  have 3: "manager_cycle first_token_taken = Inr after_second_cycle"
    by (simp add: manager_cycle_def manager_cleanup_def manager_rebalance_def two_idle_def
        after_first_cycle_def first_token_taken_def after_second_cycle_def size_of_def
        notify_workers_eq)
  have 4: "worker_turn 1 after_second_cycle = (Leave, second_token_taken)"
    by (simp add: worker_turn_def two_idle_def after_first_cycle_def first_token_taken_def
        after_second_cycle_def second_token_taken_def)
  have 5: "worker_epilogue 1 (worker_epilogue 0 second_token_taken) = both_reported"
    by (simp add: worker_epilogue_def Let_def two_idle_def after_first_cycle_def
        first_token_taken_def after_second_cycle_def second_token_taken_def both_reported_def)
  have 6: "manager_cycle both_reported = Inr no_worker_left"
    by (simp add: manager_cycle_def manager_cleanup_def erase_exited_def emit_def
        manager_rebalance_def two_idle_def after_first_cycle_def first_token_taken_def
        after_second_cycle_def second_token_taken_def both_reported_def no_worker_left_def
        size_of_def)
  have 7: "max (unat (minThreads two_idle)) 1 = 1" "length (m_workers no_worker_left) = 0"
    by (simp_all add: two_idle_def after_first_cycle_def first_token_taken_def
        after_second_cycle_def second_token_taken_def both_reported_def no_worker_left_def)
  have 8: "addTask no_worker_left (Callable 9 None) [] = Some (True, task_waiting)"
    by (simp add: addTask_def emit_def two_idle_def after_first_cycle_def
        first_token_taken_def after_second_cycle_def second_token_taken_def both_reported_def
        no_worker_left_def task_waiting_def)
  have 9: "manager_cycle task_waiting = Inl Division_by_zero"
    by (simp add: manager_cycle_def manager_cleanup_def manager_rebalance_def two_idle_def
        after_first_cycle_def first_token_taken_def after_second_cycle_def
        second_token_taken_def both_reported_def no_worker_left_def task_waiting_def
        size_of_def)
  from 1 2 3 4 5 6 7 8 9 show ?thesis by simp
qed

subsection \<open>Adding tasks to a full queue\<close>

lemma full_pool_reached:
  "addTask (setBlockPolicy (ThreadPool_fixed 1 1 0)) (Callable 7 None) [] = Some (True, full_pool)"
  by (simp add: addTask_def addTask_wait.simps setBlockPolicy_def ThreadPool_fixed_def
      init_members_def start_workers_eq emit_def size_of_def full_pool_def)

lemma cv_wait_holds: "cv_wait pred p ws = Some (q, rest) \<Longrightarrow> pred q"
  by (induction ws arbitrary: p) (auto split: if_splits wake.splits)

lemma cv_wait_for_result: "cv_wait_for pred p ws = Some (b, q, rest) \<Longrightarrow> b = pred q"
  by (induction ws arbitrary: p) (auto split: if_splits wake.splits)

lemma cv_wait_skip:
  "\<not> pred p \<Longrightarrow> \<forall>s\<in>set qs. \<not> pred s \<Longrightarrow>
   cv_wait pred p (map Notified qs @ ws) = cv_wait pred (last (p # qs)) ws"
  by (induction qs arbitrary: p) auto

lemma cv_wait_for_skip:
  "\<not> pred p \<Longrightarrow> \<forall>s\<in>set qs. \<not> pred s \<Longrightarrow>
   cv_wait_for pred p (map Notified qs @ ws) = cv_wait_for pred (last (p # qs)) ws"
  by (induction qs arbitrary: p) auto

lemma last_fails: "\<not> pred p \<Longrightarrow> \<forall>s\<in>set qs. \<not> pred s \<Longrightarrow> \<not> pred (last (p # qs))"
  by (induction qs arbitrary: p) auto

lemma addTask_wait_through: "notFull_or_stop q \<Longrightarrow> addTask_wait q ws = Some (True, q, ws)"
  by (subst addTask_wait.simps) (auto simp: notFull_or_stop_def)

text \<open>The three policies on a running pool whose bounded queue is full.\<close>

lemma addTask_reject:
  assumes "\<not> m_stop p" "0 < m_maxQueueSize p" "m_maxQueueSize p \<le> size_of (m_taskQueue p)"
    "m_queueFullPolicy p = kReject"
  shows "addTask p t ws = Some (False, p)"
  using assms by (simp add: addTask_def addTask_wait.simps)

lemma addTask_block:
  assumes "\<not> m_stop p" "0 < m_maxQueueSize p" "m_maxQueueSize p \<le> size_of (m_taskQueue p)"
    "m_queueFullPolicy p = kBlock"
  shows "addTask p t ws =
           (case cv_wait notFull_or_stop p ws of
              None \<Rightarrow> None
            | Some (q, rest) \<Rightarrow>
                if m_stop q then Some (False, q)
                else Some (True, emit Notify_one_NotEmpty
                                   (q\<lparr>m_taskQueue := m_taskQueue q @ [t]\<rparr>)))"
proof (cases "cv_wait notFull_or_stop p ws")
  case None
  with assms show ?thesis by (simp add: addTask_def addTask_wait.simps [of p])
next
  case (Some a)
  obtain q rest where a: "a = (q, rest)" by (cases a)
  from Some a have "notFull_or_stop q" by (auto dest: cv_wait_holds)
  from addTask_wait_through [OF this] Some a assms show ?thesis
    by (simp add: addTask_def addTask_wait.simps [of p])
qed

lemma addTask_timeout:
  assumes "\<not> m_stop p" "0 < m_maxQueueSize p" "m_maxQueueSize p \<le> size_of (m_taskQueue p)"
    "m_queueFullPolicy p = kTimeout"
  shows "addTask p t ws =
           (case cv_wait_for notFull_or_stop p ws of
              None \<Rightarrow> None
            | Some (result, q, rest) \<Rightarrow>
                if \<not> result then Some (False, q)
                else if m_stop q then Some (False, q)
                else Some (True, emit Notify_one_NotEmpty
                                   (q\<lparr>m_taskQueue := m_taskQueue q @ [t]\<rparr>)))"
proof (cases "cv_wait_for notFull_or_stop p ws")
  case None
  with assms show ?thesis by (simp add: addTask_def addTask_wait.simps [of p])
next
  case (Some a)
  obtain b q rest where a: "a = (b, q, rest)" by (cases a)
  from Some a have "b = notFull_or_stop q" by (auto dest: cv_wait_for_result)
  with addTask_wait_through [of q rest] Some a assms show ?thesis
    by (simp add: addTask_def addTask_wait.simps [of p])
qed

lemma stop_full_pool:
  "stop full_pool = full_pool\<lparr> m_stop := True, m_workers := [],
       effects := effects full_pool @ [Notify_all_NotEmpty, Notify_all_NotFull, Thread_joined 0] \<rparr>"
  by (simp add: stop_def join_all_def emit_def full_pool_def)

text \<open>
  Claim C3 as stated fails for the block policy: when the pool is stopped while the
  caller waits, \<open>addTask\<close> returns false and the task is not put on the queue.
\<close>

theorem addTask_block_stop_counterexample:
  "\<not> m_stop full_pool \<and> m_queueFullPolicy full_pool = kBlock
   \<and> 0 < m_maxQueueSize full_pool
   \<and> m_maxQueueSize full_pool \<le> size_of (m_taskQueue full_pool)
   \<and> addTask full_pool (Callable 8 None) [Notified (stop full_pool)]
       = Some (False, stop full_pool)
   \<and> m_taskQueue (stop full_pool) = m_taskQueue full_pool"
proof -
  have h: "\<not> m_stop full_pool" "0 < m_maxQueueSize full_pool"
    "m_maxQueueSize full_pool \<le> size_of (m_taskQueue full_pool)"
    "m_queueFullPolicy full_pool = kBlock"
    by (simp_all add: full_pool_def size_of_def)
  have s: "m_stop (stop full_pool)" "m_taskQueue (stop full_pool) = m_taskQueue full_pool"
    by (simp_all add: stop_full_pool)
  from h have "\<not> notFull_or_stop full_pool" by (auto simp: notFull_or_stop_def)
  with s have "cv_wait notFull_or_stop full_pool [Notified (stop full_pool)]
               = Some (stop full_pool, [])"
    by (simp add: notFull_or_stop_def)
  with addTask_block [OF h] h s show ?thesis by simp
qed

text \<open>
  Claim C3, amended. On a running pool whose bounded queue is full, with any number of
  earlier wake-ups that found the queue still full (\<open>qs\<close>):
  under the reject policy \<open>addTask\<close> returns false at once, whatever the other
  threads do, and leaves the pool as it is;
  under the block policy it stays parked while no slot is free, enqueues the task and
  returns true at the first wake-up that finds a free slot and the pool running, and
  returns false without enqueueing at the first wake-up that finds the pool stopped;
  under the timeout policy it does the same at a wake-up, and returns false without
  enqueueing when the timer expires with the queue still full. Durations are not
  modelled: the timed wait ends at the first expiry of its timer.
\<close>

theorem addTask_on_full_queue:
  assumes "\<not> m_stop p" and "0 < m_maxQueueSize p"
      and "m_maxQueueSize p \<le> size_of (m_taskQueue p)"
      and "\<forall>s\<in>set qs. \<not> notFull_or_stop s"
  shows "(m_queueFullPolicy p = kReject \<longrightarrow> addTask p t ws = Some (False, p))
     \<and> (m_queueFullPolicy p = kBlock \<longrightarrow>
          addTask p t (map Notified qs) = None
        \<and> (size_of (m_taskQueue q) < m_maxQueueSize q \<and> \<not> m_stop q \<longrightarrow>
             addTask p t (map Notified qs @ Notified q # ws)
               = Some (True, emit Notify_one_NotEmpty (q\<lparr>m_taskQueue := m_taskQueue q @ [t]\<rparr>)))
        \<and> (m_stop q \<longrightarrow>
             addTask p t (map Notified qs @ Notified q # ws) = Some (False, q)))
     \<and> (m_queueFullPolicy p = kTimeout \<longrightarrow>
          (m_maxQueueSize q \<le> size_of (m_taskQueue q) \<and> \<not> m_stop q \<longrightarrow>
             addTask p t (map Notified qs @ Timer_expired q # ws) = Some (False, q))
        \<and> (size_of (m_taskQueue q) < m_maxQueueSize q \<and> \<not> m_stop q \<longrightarrow>
             addTask p t (map Notified qs @ Notified q # ws)
               = Some (True, emit Notify_one_NotEmpty (q\<lparr>m_taskQueue := m_taskQueue q @ [t]\<rparr>)))
        \<and> (m_stop q \<longrightarrow>
             addTask p t (map Notified qs @ Notified q # ws) = Some (False, q)))"
proof -
  from assms(1,3) have np: "\<not> notFull_or_stop p" by (auto simp: notFull_or_stop_def)
  note nl = last_fails [of notFull_or_stop, OF np assms(4)]
  have w0: "cv_wait notFull_or_stop p (map Notified qs) = None"
    using cv_wait_skip [of notFull_or_stop, OF np assms(4), of "[]"] nl by simp
  have w1: "cv_wait notFull_or_stop p (map Notified qs @ Notified q # ws) = Some (q, ws)"
    if "notFull_or_stop q"
    using cv_wait_skip [of notFull_or_stop, OF np assms(4), of "Notified q # ws"] nl that
    by (cases ws) simp_all
  have f1: "cv_wait_for notFull_or_stop p (map Notified qs @ Notified q # ws)
              = Some (True, q, ws)" if "notFull_or_stop q"
    using cv_wait_for_skip [of notFull_or_stop, OF np assms(4), of "Notified q # ws"] nl that
    by (cases ws) simp_all
  have f2: "cv_wait_for notFull_or_stop p (map Notified qs @ Timer_expired q # ws)
              = Some (notFull_or_stop q, q, ws)"
    using cv_wait_for_skip [of notFull_or_stop, OF np assms(4), of "Timer_expired q # ws"] nl
    by simp
  have free: "notFull_or_stop q" if "size_of (m_taskQueue q) < m_maxQueueSize q"
    using that by (simp add: notFull_or_stop_def)
  have stopped: "notFull_or_stop q" if "m_stop q"
    using that by (simp add: notFull_or_stop_def)
  have full: "\<not> notFull_or_stop q"
    if "m_maxQueueSize q \<le> size_of (m_taskQueue q)" "\<not> m_stop q"
    using that by (auto simp: notFull_or_stop_def)
  show ?thesis
  proof (intro conjI impI)
    assume "m_queueFullPolicy p = kReject"
    from addTask_reject [OF assms(1-3) this] show "addTask p t ws = Some (False, p)" .
  next
    assume b: "m_queueFullPolicy p = kBlock"
    note ab = addTask_block [OF assms(1-3) b]
    show "addTask p t (map Notified qs) = None" by (simp add: ab w0)
    { assume "size_of (m_taskQueue q) < m_maxQueueSize q \<and> \<not> m_stop q"
      then show "addTask p t (map Notified qs @ Notified q # ws)
               = Some (True, emit Notify_one_NotEmpty (q\<lparr>m_taskQueue := m_taskQueue q @ [t]\<rparr>))"
        by (simp add: ab w1 free) }
    { assume "m_stop q"
      then show "addTask p t (map Notified qs @ Notified q # ws) = Some (False, q)"
        by (simp add: ab w1 stopped) }
  next
    assume b: "m_queueFullPolicy p = kTimeout"
    note ab = addTask_timeout [OF assms(1-3) b]
    { assume "m_maxQueueSize q \<le> size_of (m_taskQueue q) \<and> \<not> m_stop q"
      then show "addTask p t (map Notified qs @ Timer_expired q # ws) = Some (False, q)"
        by (simp add: ab f2 full) }
    { assume "size_of (m_taskQueue q) < m_maxQueueSize q \<and> \<not> m_stop q"
      then show "addTask p t (map Notified qs @ Notified q # ws)
               = Some (True, emit Notify_one_NotEmpty (q\<lparr>m_taskQueue := m_taskQueue q @ [t]\<rparr>))"
        by (simp add: ab f1 free) }
    { assume "m_stop q"
      then show "addTask p t (map Notified qs @ Notified q # ws) = Some (False, q)"
        by (simp add: ab f1 stopped) }
  qed
qed

theorem addTask_on_full_queue_witness:
  "addTask (setRejectPolicy full_pool) (Callable 8 None) [] = Some (False, setRejectPolicy full_pool)
   \<and> addTask full_pool (Callable 8 None) [Notified full_pool] = None
   \<and> addTask full_pool (Callable 8 None)
        [Notified full_pool, Notified (full_pool\<lparr>m_taskQueue := []\<rparr>)]
       = Some (True, emit Notify_one_NotEmpty (full_pool\<lparr>m_taskQueue := [Callable 8 None]\<rparr>))
   \<and> addTask (full_pool\<lparr>m_queueFullPolicy := kTimeout\<rparr>) (Callable 8 None)
        [Notified full_pool, Timer_expired full_pool] = Some (False, full_pool)"
proof -
  have full: "\<not> notFull_or_stop full_pool"
    by (simp add: notFull_or_stop_def full_pool_def size_of_def)
  then have qs: "\<forall>s\<in>set [full_pool]. \<not> notFull_or_stop s" "\<forall>s\<in>set []. \<not> notFull_or_stop s"
    by simp_all
  have r: "\<not> m_stop (setRejectPolicy full_pool)" "0 < m_maxQueueSize (setRejectPolicy full_pool)"
    "m_maxQueueSize (setRejectPolicy full_pool) \<le> size_of (m_taskQueue (setRejectPolicy full_pool))"
    "m_queueFullPolicy (setRejectPolicy full_pool) = kReject"
    by (simp_all add: setRejectPolicy_def full_pool_def size_of_def)
  have b: "\<not> m_stop full_pool" "0 < m_maxQueueSize full_pool"
    "m_maxQueueSize full_pool \<le> size_of (m_taskQueue full_pool)"
    "m_queueFullPolicy full_pool = kBlock"
    by (simp_all add: full_pool_def size_of_def)
  have t: "\<not> m_stop (full_pool\<lparr>m_queueFullPolicy := kTimeout\<rparr>)"
    "0 < m_maxQueueSize (full_pool\<lparr>m_queueFullPolicy := kTimeout\<rparr>)"
    "m_maxQueueSize (full_pool\<lparr>m_queueFullPolicy := kTimeout\<rparr>)
       \<le> size_of (m_taskQueue (full_pool\<lparr>m_queueFullPolicy := kTimeout\<rparr>))"
    "m_queueFullPolicy (full_pool\<lparr>m_queueFullPolicy := kTimeout\<rparr>) = kTimeout"
    by (simp_all add: full_pool_def size_of_def)
  have free: "size_of (m_taskQueue (full_pool\<lparr>m_taskQueue := []\<rparr>))
                < m_maxQueueSize (full_pool\<lparr>m_taskQueue := []\<rparr>)"
    "\<not> m_stop (full_pool\<lparr>m_taskQueue := []\<rparr>)"
    by (simp_all add: full_pool_def size_of_def)
  from addTask_on_full_queue [OF r(1-3) qs(2), where t = "Callable 8 None" and ws = "[]"] r(4)
  have 1: "addTask (setRejectPolicy full_pool) (Callable 8 None) []
           = Some (False, setRejectPolicy full_pool)"
    by simp
  from addTask_on_full_queue [OF b(1-3) qs(1), where t = "Callable 8 None"
      and q = "full_pool\<lparr>m_taskQueue := []\<rparr>" and ws = "[]"]
    b(4) free
  have 2: "addTask full_pool (Callable 8 None) [Notified full_pool] = None"
    and 3: "addTask full_pool (Callable 8 None)
        [Notified full_pool, Notified (full_pool\<lparr>m_taskQueue := []\<rparr>)]
       = Some (True, emit Notify_one_NotEmpty (full_pool\<lparr>m_taskQueue := [Callable 8 None]\<rparr>))"
    by simp_all
  from addTask_on_full_queue [OF t(1-3) qs(1), where t = "Callable 8 None"
      and q = full_pool and ws = "[]"] t(4) b(1,3)
  have 4: "addTask (full_pool\<lparr>m_queueFullPolicy := kTimeout\<rparr>) (Callable 8 None)
        [Notified full_pool, Timer_expired full_pool] = Some (False, full_pool)"
    by simp
  from 1 2 3 4 show ?thesis by simp
qed

text \<open>The waiting loop of \<open>addTask\<close> waits at most once.\<close>

lemma addTask_wait_once:
  "addTask_wait p ws =
     (if notFull_or_stop p then Some (True, p, ws)
      else case m_queueFullPolicy p of
             kReject \<Rightarrow> Some (False, p, ws)
           | kBlock \<Rightarrow>
               (case cv_wait notFull_or_stop p ws of
                  None \<Rightarrow> None | Some (q, rest) \<Rightarrow> Some (True, q, rest))
           | kTimeout \<Rightarrow> cv_wait_for notFull_or_stop p ws)"
proof (cases "notFull_or_stop p")
  case True
  then show ?thesis by (simp add: addTask_wait_through)
next
  case False
  then have c: "m_maxQueueSize p \<le> size_of (m_taskQueue p) \<and> \<not> m_stop p"
    by (auto simp: notFull_or_stop_def)
  show ?thesis
  proof (cases "m_queueFullPolicy p")
    case kReject
    with False c show ?thesis by (subst addTask_wait.simps) simp
  next
    case kBlock
    show ?thesis
    proof (cases "cv_wait notFull_or_stop p ws")
      case None
      with False c kBlock show ?thesis by (subst addTask_wait.simps) simp
    next
      case (Some a)
      obtain q rest where a: "a = (q, rest)" by (cases a)
      from Some a have "notFull_or_stop q" by (auto dest: cv_wait_holds)
      from addTask_wait_through [OF this] Some a False c kBlock show ?thesis
        by (subst addTask_wait.simps) simp
    qed
  next
    case kTimeout
    show ?thesis
    proof (cases "cv_wait_for notFull_or_stop p ws")
      case None
      with False c kTimeout show ?thesis by (subst addTask_wait.simps) simp
    next
      case (Some a)
      obtain b q rest where a: "a = (b, q, rest)" by (cases a)
      from Some a have "b = notFull_or_stop q" by (auto dest: cv_wait_for_result)
      with addTask_wait_through [of q rest] Some a False c kTimeout show ?thesis
        by (subst addTask_wait.simps) auto
    qed
  qed
qed

lemma cv_wait_from:
  "cv_wait pred p ws = Some (q, rest) \<Longrightarrow> q = p \<or> q \<in> seen ` set ws"
  by (induction ws arbitrary: p) (auto split: if_splits wake.splits)

lemma cv_wait_for_from:
  "cv_wait_for pred p ws = Some (b, q, rest) \<Longrightarrow> q = p \<or> q \<in> seen ` set ws"
  by (induction ws arbitrary: p) (auto split: if_splits wake.splits)

lemma cv_wait_for_expired:
  "cv_wait_for pred p ws = Some (False, q, rest) \<Longrightarrow> Timer_expired q \<in> set ws \<and> \<not> pred q"
  by (induction ws arbitrary: p) (auto split: if_splits wake.splits)

subsection \<open>Submitting tasks\<close>

lemma addTask_finish:
  assumes "(if m_stop r then Some (False, r)
            else Some (True, emit Notify_one_NotEmpty (r\<lparr>m_taskQueue := m_taskQueue r @ [t]\<rparr>)))
           = Some (ok, q)"
      and "r = p \<or> r \<in> seen ` set ws"
  shows "(ok \<longrightarrow> (\<exists>q0. (q0 = p \<or> q0 \<in> seen ` set ws) \<and> \<not> m_stop q0
                   \<and> q = emit Notify_one_NotEmpty (q0\<lparr>m_taskQueue := m_taskQueue q0 @ [t]\<rparr>)))
       \<and> (\<not> ok \<longrightarrow> (q = p \<or> q \<in> seen ` set ws) \<and> m_stop q)"
proof (cases "m_stop r")
  case True
  with assms(1) have "ok = False" "q = r" by simp_all
  with True assms(2) show ?thesis by simp
next
  case False
  with assms(1) have "ok = True"
    "q = emit Notify_one_NotEmpty (r\<lparr>m_taskQueue := m_taskQueue r @ [t]\<rparr>)" by simp_all
  with False assms(2) show ?thesis by blast
qed

lemma addTask_outcome:
  assumes "addTask p t ws = Some (ok, q)"
  shows "(ok \<longrightarrow> (\<exists>q0. (q0 = p \<or> q0 \<in> seen ` set ws) \<and> \<not> m_stop q0
                   \<and> q = emit Notify_one_NotEmpty (q0\<lparr>m_taskQueue := m_taskQueue q0 @ [t]\<rparr>)))
       \<and> (\<not> ok \<longrightarrow> (q = p \<or> q \<in> seen ` set ws)
            \<and> (m_stop q
               \<or> (\<not> notFull_or_stop q \<and> 0 < m_maxQueueSize p
                  \<and> ((m_queueFullPolicy p = kReject \<and> q = p)
                     \<or> (m_queueFullPolicy p = kTimeout \<and> Timer_expired q \<in> set ws)))))"
proof (cases "m_stop p")
  case True
  with assms have "ok = False" "q = p" by (simp_all add: addTask_def)
  with True show ?thesis by simp
next
  case running: False
  let ?finish = "\<lambda>r. if m_stop r then Some (False, r)
        else Some (True, emit Notify_one_NotEmpty (r\<lparr>m_taskQueue := m_taskQueue r @ [t]\<rparr>))"
  show ?thesis
  proof (cases "0 < m_maxQueueSize p \<and> \<not> notFull_or_stop p")
    case False
    then have "addTask p t ws = ?finish p"
      using running by (auto simp: addTask_def addTask_wait_once)
    with assms have "?finish p = Some (ok, q)" by simp
    from addTask_finish [OF this] show ?thesis by blast
  next
    case full: True
    then have bounded: "0 < m_maxQueueSize p" and nf: "\<not> notFull_or_stop p" by simp_all
    show ?thesis
    proof (cases "m_queueFullPolicy p")
      case kReject
      then have "addTask p t ws = Some (False, p)"
        using running bounded nf by (simp add: addTask_def addTask_wait_once)
      with assms have "ok = False" "q = p" by simp_all
      with kReject bounded nf show ?thesis by simp
    next
      case kBlock
      then have eq: "addTask p t ws =
          (case cv_wait notFull_or_stop p ws of
             None \<Rightarrow> None | Some (r, rest) \<Rightarrow> ?finish r)"
        using running bounded nf
        by (simp add: addTask_def addTask_wait_once split: option.splits)
      with assms obtain r rest where w: "cv_wait notFull_or_stop p ws = Some (r, rest)"
        by (cases "cv_wait notFull_or_stop p ws") auto
      with eq assms have "?finish r = Some (ok, q)" by simp
      from addTask_finish [OF this cv_wait_from [OF w]] show ?thesis by blast
    next
      case kTimeout
      then have eq: "addTask p t ws =
          (case cv_wait_for notFull_or_stop p ws of
             None \<Rightarrow> None
           | Some (b, r, rest) \<Rightarrow> if \<not> b then Some (False, r) else ?finish r)"
        using running bounded nf
        by (simp add: addTask_def addTask_wait_once split: option.splits)
      with assms obtain b r rest where w: "cv_wait_for notFull_or_stop p ws = Some (b, r, rest)"
        by (cases "cv_wait_for notFull_or_stop p ws") auto
      note fr = cv_wait_for_from [OF w]
      show ?thesis
      proof (cases b)
        case True
        with w eq assms have "?finish r = Some (ok, q)" by simp
        from addTask_finish [OF this fr] show ?thesis by blast
      next
        case False
        with w eq assms have e: "ok = False" "q = r" by simp_all
        from w False have "Timer_expired r \<in> set ws" "\<not> notFull_or_stop r"
          by (auto dest: cv_wait_for_expired)
        with e fr kTimeout bounded show ?thesis by simp
      qed
    qed
  qed
qed

text \<open>
  What \<open>submitTask\<close> reports when no other thread changes the policy while the call
  waits: a call that returns true has put the wrapper of \<open>f\<close> at the back of the
  queue of a running pool and returns the packaged task's future; one that returns
  false has not changed the pool and returns a future holding an exception that names
  the cause: the pool is stopped, or the bounded queue was full under the reject
  policy, or the timer expired with the queue still full under the timeout policy.
\<close>

lemma submitTask_reports_failure:
  assumes "\<forall>e\<in>set ws. m_queueFullPolicy (seen e) = m_queueFullPolicy p"
      and "submitTask p f ws = Some ((ok, fut), q)"
  shows "(ok \<longrightarrow> fut = Future_of_task f \<and> \<not> m_stop q
               \<and> m_taskQueue q \<noteq> [] \<and> last (m_taskQueue q) = Callable f None)
       \<and> (\<not> ok \<longrightarrow> (q = p \<or> q \<in> seen ` set ws)
            \<and> (if m_stop q
                then fut = Future_with_exception ''ThreadPool has been stopped''
                else if m_queueFullPolicy p = kReject
                then fut = Future_with_exception ''Task queue full (Reject policy)''
                     \<and> q = p \<and> 0 < m_maxQueueSize p
                     \<and> m_maxQueueSize p \<le> size_of (m_taskQueue p)
                else m_queueFullPolicy p = kTimeout
                     \<and> fut = Future_with_exception ''Task queue full (Timeout policy)''
                     \<and> Timer_expired q \<in> set ws
                     \<and> m_maxQueueSize q \<le> size_of (m_taskQueue q)))"
proof -
  from assms(2) obtain x where x: "addTask p (Callable f None) ws = Some x"
    by (cases "addTask p (Callable f None) ws") (simp_all add: submitTask_def)
  obtain added q' where xx: "x = (added, q')" by (cases x)
  have sub': "submitTask p f ws =
      (if added then Some ((True, Future_of_task f), q')
       else if m_stop q'
       then Some ((False, Future_with_exception ''ThreadPool has been stopped''), q')
       else case m_queueFullPolicy q' of
              kReject \<Rightarrow>
                Some ((False, Future_with_exception ''Task queue full (Reject policy)''), q')
            | kBlock \<Rightarrow>
                Some ((False, Future_with_exception
                         ''Task submission failed in block policy (ThreadPool stopped)''), q')
            | kTimeout \<Rightarrow>
                Some ((False, Future_with_exception ''Task queue full (Timeout policy)''), q'))"
    by (simp add: submitTask_def x xx)
  have "snd (the (submitTask p f ws)) = q'"
    unfolding sub' by (simp split: QueueFullPolicy.splits)
  with assms(2) have qq: "q' = q" by simp
  note a = x [unfolded xx qq]
  note sub = sub' [unfolded qq]
  note o = addTask_outcome [OF a]
  show ?thesis
  proof (cases added)
    case True
    with o obtain q0 where q0: "\<not> m_stop q0"
      "q = emit Notify_one_NotEmpty (q0\<lparr>m_taskQueue := m_taskQueue q0 @ [Callable f None]\<rparr>)"
      by auto
    from sub True assms(2) have "ok = True" "fut = Future_of_task f" by simp_all
    with q0 show ?thesis by (simp add: emit_def)
  next
    case False
    with o have from_env: "q = p \<or> q \<in> seen ` set ws"
      and why: "m_stop q
               \<or> (\<not> notFull_or_stop q \<and> 0 < m_maxQueueSize p
                  \<and> ((m_queueFullPolicy p = kReject \<and> q = p)
                     \<or> (m_queueFullPolicy p = kTimeout \<and> Timer_expired q \<in> set ws)))"
      by auto
    from from_env assms(1) have pol: "m_queueFullPolicy q = m_queueFullPolicy p" by auto
    show ?thesis
    proof (cases "m_stop q")
      case True
      with sub False assms(2) have "ok = False"
        "fut = Future_with_exception ''ThreadPool has been stopped''" by simp_all
      with True from_env show ?thesis by simp
    next
      case running: False
      with why have nf: "\<not> notFull_or_stop q" and b: "0 < m_maxQueueSize p"
        and c: "(m_queueFullPolicy p = kReject \<and> q = p)
                \<or> (m_queueFullPolicy p = kTimeout \<and> Timer_expired q \<in> set ws)"
        by simp_all
      from nf have full: "m_maxQueueSize q \<le> size_of (m_taskQueue q)"
        by (auto simp: notFull_or_stop_def)
      from c show ?thesis
      proof
        assume r: "m_queueFullPolicy p = kReject \<and> q = p"
        with sub False running assms(2) have "ok = False"
          "fut = Future_with_exception ''Task queue full (Reject policy)''" by simp_all
        with r running b full show ?thesis by simp
      next
        assume t: "m_queueFullPolicy p = kTimeout \<and> Timer_expired q \<in> set ws"
        with sub False running assms(2) pol have "ok = False"
          "fut = Future_with_exception ''Task queue full (Timeout policy)''" by simp_all
        with t running from_env full show ?thesis by simp
      qed
    qed
  qed
qed

text \<open>
  Claim C5: whenever \<open>submitTask\<close> fails, its future holds an exception identifying
  the cause (the comment in its \<open>kBlock\<close> branch says that a failure there can only
  mean that the pool has stopped). The code does not keep to it: after \<open>addTask\<close> has
  failed, \<open>submitTask\<close> reads \<open>m_queueFullPolicy\<close> again, without the lock. A caller
  waits under the timeout policy on a full queue, another thread calls
  \<open>setBlockPolicy()\<close> meanwhile, and the timer expires with the queue still full in
  a running pool: \<open>addTask\<close> returns false for the timeout, and the future says that
  the submission failed in the block policy because the pool stopped.
\<close>

theorem submitTask_names_wrong_cause:
  "m_queueFullPolicy (full_pool\<lparr>m_queueFullPolicy := kTimeout\<rparr>) = kTimeout
   \<and> setBlockPolicy (full_pool\<lparr>m_queueFullPolicy := kTimeout\<rparr>) = full_pool
   \<and> \<not> m_stop full_pool
   \<and> m_maxQueueSize full_pool \<le> size_of (m_taskQueue full_pool)
   \<and> addTask (full_pool\<lparr>m_queueFullPolicy := kTimeout\<rparr>) (Callable 8 None)
         [Timer_expired full_pool] = Some (False, full_pool)
   \<and> submitTask (full_pool\<lparr>m_queueFullPolicy := kTimeout\<rparr>) 8 [Timer_expired full_pool]
       = Some ((False, Future_with_exception
                  ''Task submission failed in block policy (ThreadPool stopped)''),
               full_pool)"
proof -
  have a: "addTask (full_pool\<lparr>m_queueFullPolicy := kTimeout\<rparr>) (Callable 8 None)
         [Timer_expired full_pool] = Some (False, full_pool)"
    by (simp add: addTask_def addTask_wait_once notFull_or_stop_def full_pool_def size_of_def)
  have p: "\<not> m_stop full_pool" "m_queueFullPolicy full_pool = kBlock"
    "m_maxQueueSize full_pool \<le> size_of (m_taskQueue full_pool)"
    "m_queueFullPolicy (full_pool\<lparr>m_queueFullPolicy := kTimeout\<rparr>) = kTimeout"
    "setBlockPolicy (full_pool\<lparr>m_queueFullPolicy := kTimeout\<rparr>) = full_pool"
    by (simp_all add: full_pool_def size_of_def setBlockPolicy_def)
  have s: "submitTask (full_pool\<lparr>m_queueFullPolicy := kTimeout\<rparr>) 8 [Timer_expired full_pool]
       = Some ((False, Future_with_exception
                  ''Task submission failed in block policy (ThreadPool stopped)''),
               full_pool)"
    by (simp add: submitTask_def a p)
  from a p s show ?thesis by simp
qed

subsection \<open>Stopping\<close>

lemma join_all_eq: "join_all ts p = p\<lparr>effects := effects p @ map Thread_joined ts\<rparr>"
  unfolding join_all_def
  by (induction ts arbitrary: p) (simp_all add: emit_def)

lemma stop_running:
  "\<not> m_stop p \<Longrightarrow>
   stop p =
     p\<lparr> m_stop := True,
        managerThread := (if isDynamic p then None else managerThread p),
        workerExitId_deque := (if isDynamic p then [] else workerExitId_deque p),
        m_workers := [],
        effects := effects p
          @ (if isDynamic p
             then Notify_one_managerExit
                  # (case managerThread p of None \<Rightarrow> [] | Some m \<Rightarrow> [Thread_joined m])
             else [])
          @ [Notify_all_NotEmpty, Notify_all_NotFull]
          @ map Thread_joined (m_workers p) \<rparr>"
  by (simp add: stop_def Let_def join_all_eq emit_def split: option.splits)

lemma worker_loop_stopped: "m_stop p \<Longrightarrow> worker_loop w p = (Finished, worker_epilogue w p)"
  by (subst worker_loop.simps) simp

text \<open>
  Claim C4. \<open>stop()\<close> is idempotent. On a stopped pool it changes nothing; on a
  running pool it sets the flag and performs the shutdown sequence (wake and join the
  manager in dynamic mode, wake all waiters, join and drop every worker) once, and a
  second call adds nothing. The task queue is left as it was, and a worker that finds
  the pool stopped leaves without taking a task or writing to the trace: tasks queued
  at \<open>stop()\<close> are not run by it.
\<close>

theorem stop_idempotent:
  "stop (stop p) = stop p
   \<and> m_stop (stop p)
   \<and> (m_stop p \<longrightarrow> stop p = p)
   \<and> (\<not> m_stop p \<longrightarrow>
        m_workers (stop p) = []
      \<and> effects (stop p)
          = effects p
            @ (if isDynamic p
               then Notify_one_managerExit
                    # (case managerThread p of None \<Rightarrow> [] | Some m \<Rightarrow> [Thread_joined m])
               else [])
            @ [Notify_all_NotEmpty, Notify_all_NotFull]
            @ map Thread_joined (m_workers p))
   \<and> m_taskQueue (stop p) = m_taskQueue p
   \<and> worker_loop w (stop p) = (Finished, worker_epilogue w (stop p))
   \<and> m_taskQueue (worker_epilogue w (stop p)) = m_taskQueue p
   \<and> effects (worker_epilogue w (stop p)) = effects (stop p)"
proof -
  have s: "m_stop (stop p)"
    by (cases "m_stop p") (simp_all add: stop_running, simp add: stop_def)
  have i: "stop (stop p) = stop p"
    using s by (simp add: stop_def [of "stop p"])
  have u: "m_stop p \<longrightarrow> stop p = p" by (simp add: stop_def)
  have q: "m_taskQueue (stop p) = m_taskQueue p"
    by (cases "m_stop p") (simp_all add: stop_running, simp add: stop_def)
  have e: "m_taskQueue (worker_epilogue w (stop p)) = m_taskQueue (stop p)"
    "effects (worker_epilogue w (stop p)) = effects (stop p)"
    by (simp_all add: worker_epilogue_def Let_def)
  show ?thesis
    using s i u q e worker_loop_stopped [OF s, of w]
    by (simp add: stop_running)
qed


theorem stop_idempotent_witness:
  "\<not> m_stop full_pool \<and> m_stop (stop full_pool)
   \<and> stop (stop full_pool) = stop full_pool
   \<and> m_workers (stop full_pool) = []
   \<and> effects (stop full_pool)
       = effects full_pool @ [Notify_all_NotEmpty, Notify_all_NotFull, Thread_joined 0]
   \<and> m_taskQueue (stop full_pool) = [Callable 7 None]
   \<and> worker_loop 0 (stop full_pool) = (Finished, worker_epilogue 0 (stop full_pool))
   \<and> effects (worker_epilogue 0 (stop full_pool)) = effects (stop full_pool)"
proof -
  have h: "\<not> m_stop full_pool" "\<not> isDynamic full_pool" "m_workers full_pool = [0]"
    "m_taskQueue full_pool = [Callable 7 None]"
    by (simp_all add: full_pool_def)
  note a = stop_idempotent [of full_pool 0]
  note b = stop_idempotent [of "stop full_pool" 0]
  from a have s: "m_stop (stop full_pool)" by simp
  from b s have i: "stop (stop full_pool) = stop full_pool" by simp
  from a h show ?thesis using s i by simp
qed

subsection \<open>Exceptions thrown by tasks\<close>

lemma invoked_ids_append: "invoked_ids (xs @ ys) = invoked_ids xs @ invoked_ids ys"
  by (induction xs rule: invoked_ids.induct) simp_all

lemma dispatch_effects:
  "effects (snd (dispatch t s)) =
     effects s @
     (case t of
        Empty_function \<Rightarrow> []
      | Callable n None \<Rightarrow> [Invoked n]
      | Callable n (Some (Std_exception what)) \<Rightarrow>
          [Invoked n, Stderr (''Task error: '' @ what @ [CHR 0x0A])]
      | Callable n (Some Other_exception) \<Rightarrow>
          [Invoked n, Stderr (''Unknown task error'' @ [CHR 0x0A])])"
  by (simp add: dispatch_def invoke_def emit_def split: task.splits option.splits exn.splits)

lemma dispatch_invoked:
  "invoked_ids (effects (snd (dispatch t s))) = invoked_ids (effects s) @ callable_ids [t]"
  by (simp add: dispatch_effects invoked_ids_append split: task.splits option.splits exn.splits)

lemma dispatch_unexpected:
  "count_list (effects (snd (dispatch t s))) (Stderr_unexpected_exception w)
     = count_list (effects s) (Stderr_unexpected_exception w)"
  by (simp add: dispatch_effects split: task.splits option.splits exn.splits)

lemma callable_ids_Cons: "callable_ids (t # ts) = callable_ids [t] @ callable_ids ts"
  by (cases t) simp_all

text \<open>One turn of the worker's loop on a running pool with a task waiting.\<close>

lemma worker_turn_runs_task:
  assumes "\<not> m_stop p" "workerExitNum p = 0" "m_taskQueue p = t # rest"
  shows "\<exists>q. worker_turn w p = (Continue, q) \<and> m_taskQueue q = rest
           \<and> \<not> m_stop q \<and> workerExitNum q = 0
           \<and> invoked_ids (effects q) = invoked_ids (effects p) @ callable_ids [t]
           \<and> count_list (effects q) (Stderr_unexpected_exception w)
               = count_list (effects p) (Stderr_unexpected_exception w)"
proof -
  define p3 where
    "p3 = (let p1 = p\<lparr>m_taskQueue := rest\<rparr>;
               p2 = (if m_queueFullPolicy p1 \<noteq> kReject
                     then emit Notify_one_NotFull p1 else p1)
           in if isDynamic p2 then p2\<lparr>idleThreads := idleThreads p2 - 1\<rparr> else p2)"
  have wt: "worker_turn w p =
      (case dispatch t p3 of
         (Some e, p4) \<Rightarrow> (Leave, emit (Stderr_unexpected_exception w) p4)
       | (None, p4) \<Rightarrow>
           (Continue, if isDynamic p4 then p4\<lparr>idleThreads := idleThreads p4 + 1\<rparr> else p4))"
    using assms by (simp add: worker_turn_def p3_def Let_def)
  obtain e p4 where d: "dispatch t p3 = (e, p4)" by (cases "dispatch t p3")
  from dispatch_no_escape [of t p3] d have e: "e = None" by simp
  have k3: "m_taskQueue p3 = rest" "\<not> m_stop p3" "workerExitNum p3 = 0"
    "invoked_ids (effects p3) = invoked_ids (effects p)"
    "count_list (effects p3) (Stderr_unexpected_exception w)
       = count_list (effects p) (Stderr_unexpected_exception w)"
    using assms by (simp_all add: p3_def Let_def emit_def invoked_ids_append)
  from dispatch_keeps [OF d] k3 have k4: "m_taskQueue p4 = rest" "\<not> m_stop p4"
    "workerExitNum p4 = 0" by simp_all
  from dispatch_invoked [of t p3] dispatch_unexpected [of t p3 w] d k3
  have l4: "invoked_ids (effects p4) = invoked_ids (effects p) @ callable_ids [t]"
    "count_list (effects p4) (Stderr_unexpected_exception w)
       = count_list (effects p) (Stderr_unexpected_exception w)"
    by simp_all
  have "worker_turn w p =
          (Continue, if isDynamic p4 then p4\<lparr>idleThreads := idleThreads p4 + 1\<rparr> else p4)"
    by (simp add: wt d e)
  with k4 l4 show ?thesis by simp
qed

lemma worker_loop_drains:
  assumes "\<not> m_stop p" "workerExitNum p = 0"
  shows "\<exists>q. worker_loop w p = (Parked, q) \<and> m_taskQueue q = []
           \<and> invoked_ids (effects q)
               = invoked_ids (effects p) @ callable_ids (m_taskQueue p)
           \<and> count_list (effects q) (Stderr_unexpected_exception w)
               = count_list (effects p) (Stderr_unexpected_exception w)"
  using assms
proof (induction "m_taskQueue p" arbitrary: p)
  case Nil
  then have "\<not> waitCond p" by (simp add: waitCond_def)
  with Nil show ?case by (subst worker_loop.simps) simp
next
  case (Cons t rest)
  from Cons.hyps(2) have wc: "waitCond p" by (simp add: waitCond_def) (metis list.distinct(1))
  from worker_turn_runs_task [OF Cons.prems Cons.hyps(2) [symmetric], of w]
  obtain q where q: "worker_turn w p = (Continue, q)" "m_taskQueue q = rest"
    "\<not> m_stop q" "workerExitNum q = 0"
    "invoked_ids (effects q) = invoked_ids (effects p) @ callable_ids [t]"
    "count_list (effects q) (Stderr_unexpected_exception w)
       = count_list (effects p) (Stderr_unexpected_exception w)"
    by blast
  from Cons.hyps(1) [OF q(2) [symmetric] q(3,4)]
  obtain r where r: "worker_loop w q = (Parked, r)" "m_taskQueue r = []"
    "invoked_ids (effects r) = invoked_ids (effects q) @ callable_ids (m_taskQueue q)"
    "count_list (effects r) (Stderr_unexpected_exception w)
       = count_list (effects q) (Stderr_unexpected_exception w)"
    by blast
  have "worker_loop w p = worker_loop w q"
    using Cons.prems(1) wc q(1) by (subst worker_loop.simps) simp
  with r q Cons.hyps(2) [symmetric] callable_ids_Cons [of t rest] show ?case by simp
qed

text \<open>
  Claim C6. No exception leaves the dispatch statement of \<open>worker\<close>: a
  \<open>std::exception\<close> is reported as \<open>"Task error: ..."\<close>, anything else as
  \<open>"Unknown task error"\<close>. A worker of a running pool that is not asked to leave
  therefore goes through the whole queue, invoking every callable in order whatever
  the earlier ones threw, never reaches its outer handler, and then parks in its wait.
\<close>

theorem worker_catches_task_exceptions:
  assumes "\<not> m_stop p" and "workerExitNum p = 0"
  shows "fst (dispatch t s) = None
       \<and> effects (snd (dispatch (Callable n (Some (Std_exception what))) s))
           = effects s @ [Invoked n, Stderr (''Task error: '' @ what @ [CHR 0x0A])]
       \<and> effects (snd (dispatch (Callable n (Some Other_exception)) s))
           = effects s @ [Invoked n, Stderr (''Unknown task error'' @ [CHR 0x0A])]
       \<and> (\<exists>q. worker_loop w p = (Parked, q) \<and> m_taskQueue q = []
              \<and> invoked_ids (effects q)
                  = invoked_ids (effects p) @ callable_ids (m_taskQueue p)
              \<and> count_list (effects q) (Stderr_unexpected_exception w)
                  = count_list (effects p) (Stderr_unexpected_exception w))"
  using worker_loop_drains [OF assms, of w] dispatch_no_escape [of t s]
  by (simp add: dispatch_effects)

theorem worker_catches_task_exceptions_witness:
  "\<not> m_stop faulty_pool \<and> workerExitNum faulty_pool = 0
   \<and> (\<exists>q. worker_loop 0 faulty_pool = (Parked, q) \<and> m_taskQueue q = []
          \<and> invoked_ids (effects q) = [1, 2, 3]
          \<and> count_list (effects q) (Stderr_unexpected_exception 0) = 0)"
proof -
  have h: "\<not> m_stop faulty_pool" "workerExitNum faulty_pool = 0"
    by (simp_all add: faulty_pool_def)
  have v: "invoked_ids (effects faulty_pool) @ callable_ids (m_taskQueue faulty_pool) = [1, 2, 3]"
    "count_list (effects faulty_pool) (Stderr_unexpected_exception 0) = 0"
    by (simp_all add: faulty_pool_def)
  from worker_catches_task_exceptions [OF h, of _ _ _ _ 0] v h show ?thesis by simp
qed


section \<open>Properties of the message buffer\<close>

lemma length_header_4: "length (length_header n) = 4"
  by (simp add: length_header_def)

lemma header_roundtrip: "n < 2 ^ 32 \<Longrightarrow> header_length (length_header n) = n"
proof -
  assume n: "n < 2 ^ 32"
  define a where "a = n div 256"
  define b where "b = n div 65536"
  define c where "c = n div 16777216"
  have b_a: "b = a div 256" unfolding a_def b_def by (simp add: div_mult2_eq [symmetric])
  have c_b: "c = b div 256" unfolding b_def c_def by (simp add: div_mult2_eq [symmetric])
  have "c < 256" unfolding c_def using n by simp
  then have 4: "c mod 256 = c" by simp
  have 1: "n = n mod 256 + 256 * a" unfolding a_def by simp
  have 2: "a = a mod 256 + 256 * b" unfolding b_a by simp
  have 3: "b = b mod 256 + 256 * c" unfolding c_b by simp
  have "n mod 256 + 256 * (a mod 256) + 65536 * (b mod 256) + 16777216 * c = n"
    using 1 2 3 by linarith
  then show ?thesis
    using 4 by (simp add: header_length_def length_header_def unat_of_nat a_def b_def c_def)
qed

lemma appendWithSep_frame: "appendWithSep b m = append_buf b (frame m)"
  by (simp add: appendWithSep_def append_buf_def frame_def)

lemma pickMessage_frame:
  assumes "length m < 2 ^ 32"
  shows "pickMessage \<lparr>m_buf = frame m @ rest\<rparr> = (Some m, \<lparr>m_buf = rest\<rparr>)"
proof -
  define xs where "xs = frame m @ rest"
  have t: "take 4 xs = length_header (length m)"
    by (simp add: xs_def frame_def length_header_4)
  have d: "drop 4 xs = m @ rest"
    by (simp add: xs_def frame_def length_header_4)
  have l: "length xs = 4 + length m + length rest"
    by (simp add: xs_def frame_def length_header_4)
  have tt: "take (length m) (drop 4 xs) = m" unfolding d by simp
  have "drop (length m) (drop 4 xs) = rest" unfolding d by simp
  then have dd: "drop (4 + length m) xs = rest" by (simp add: add.commute)
  have "pickMessage \<lparr>m_buf = xs\<rparr> = (Some m, \<lparr>m_buf = rest\<rparr>)"
    by (simp add: pickMessage_def Let_def t l header_roundtrip [OF assms] tt dd)
  then show ?thesis unfolding xs_def .
qed

lemma pickMessage_None: "pickMessage b = (None, b') \<Longrightarrow> b' = b"
  by (auto simp: pickMessage_def Let_def split: if_splits)

lemma pickMessage_more:
  assumes "pickMessage \<lparr>m_buf = xs\<rparr> = (Some m, b')"
  shows "pickMessage \<lparr>m_buf = xs @ ys\<rparr> = (Some m, \<lparr>m_buf = m_buf b' @ ys\<rparr>)"
proof -
  from assms have 4: "4 \<le> length xs"
    by (auto simp: pickMessage_def Let_def split: if_splits)
  then have t: "take 4 (xs @ ys) = take 4 xs" by simp
  from assms 4 have len: "4 + header_length (take 4 xs) \<le> length xs"
    by (auto simp: pickMessage_def Let_def split: if_splits)
  from assms 4 len have m: "m = take (header_length (take 4 xs)) (drop 4 xs)"
    and b': "m_buf b' = drop (4 + header_length (take 4 xs)) xs"
    by (auto simp: pickMessage_def Let_def split: if_splits)
  show ?thesis
    using 4 len by (simp add: pickMessage_def Let_def t m b')
qed

lemma pick_all_None: "pickMessage b = (None, b') \<Longrightarrow> pick_all b = ([], b)"
  by (subst pick_all.simps) (auto dest: pickMessage_None)

lemma pick_all_frames:
  assumes "\<forall>m\<in>set ms. length m < 2 ^ 32" "fst (pickMessage \<lparr>m_buf = r\<rparr>) = None"
  shows "pick_all \<lparr>m_buf = concat (map frame ms) @ r\<rparr> = (ms, \<lparr>m_buf = r\<rparr>)"
  using assms
proof (induction ms)
  case Nil
  then obtain b' where "pickMessage \<lparr>m_buf = r\<rparr> = (None, b')"
    by (cases "pickMessage \<lparr>m_buf = r\<rparr>") auto
  from pick_all_None [OF this] show ?case by simp
next
  case (Cons m ms)
  from Cons.prems have l: "length m < 2 ^ 32" by simp
  from Cons have ih: "pick_all \<lparr>m_buf = concat (map frame ms) @ r\<rparr> = (ms, \<lparr>m_buf = r\<rparr>)"
    by simp
  from pickMessage_frame [OF l, of "concat (map frame ms) @ r"] ih show ?case
    by (subst pick_all.simps) simp
qed

lemma pick_all_more:
  "pick_all \<lparr>m_buf = xs\<rparr> = (ms1, b1) \<Longrightarrow>
   pick_all \<lparr>m_buf = xs @ ys\<rparr>
     = (ms1 @ fst (pick_all \<lparr>m_buf = m_buf b1 @ ys\<rparr>),
        snd (pick_all \<lparr>m_buf = m_buf b1 @ ys\<rparr>))"
proof (induction "length xs" arbitrary: xs ms1 b1 rule: less_induct)
  case less
  obtain r b' where p: "pickMessage \<lparr>m_buf = xs\<rparr> = (r, b')"
    by (cases "pickMessage \<lparr>m_buf = xs\<rparr>")
  show ?case
  proof (cases r)
    case None
    with p pick_all_None [of "\<lparr>m_buf = xs\<rparr>" b'] less.prems show ?thesis by simp
  next
    case (Some m)
    obtain zs where zs: "b' = \<lparr>m_buf = zs\<rparr>" by (cases b') simp
    obtain ms' b'' where rec: "pick_all \<lparr>m_buf = zs\<rparr> = (ms', b'')"
      by (cases "pick_all \<lparr>m_buf = zs\<rparr>")
    have "pick_all \<lparr>m_buf = xs\<rparr> = (m # ms', b'')"
      by (subst pick_all.simps) (simp add: p Some zs rec)
    with less.prems have e: "ms1 = m # ms'" "b1 = b''" by simp_all
    from p Some have pm: "pickMessage \<lparr>m_buf = xs @ ys\<rparr> = (Some m, \<lparr>m_buf = zs @ ys\<rparr>)"
      using pickMessage_more [of xs m b' ys] zs by simp
    from p Some zs have "length zs < length xs"
      using pickMessage_shrinks [of "\<lparr>m_buf = xs\<rparr>" m b'] by simp
    from less.hyps [OF this rec]
    have ih: "pick_all \<lparr>m_buf = zs @ ys\<rparr>
       = (ms' @ fst (pick_all \<lparr>m_buf = m_buf b'' @ ys\<rparr>),
          snd (pick_all \<lparr>m_buf = m_buf b'' @ ys\<rparr>))" .
    show ?thesis
      by (subst pick_all.simps) (simp add: pm ih e)
  qed
qed

lemma pick_all_drained: "fst (pickMessage (snd (pick_all b))) = None"
proof (induction b rule: pick_all.induct)
  case (1 b)
  obtain r b' where p: "pickMessage b = (r, b')" by (cases "pickMessage b")
  show ?case
  proof (cases r)
    case None
    with p pick_all_None [of b b'] pickMessage_None [of b b'] show ?thesis by simp
  next
    case (Some m)
    obtain ms' b'' where rec: "pick_all b' = (ms', b'')" by (cases "pick_all b'")
    have "pick_all b = (m # ms', b'')"
      by (subst pick_all.simps) (simp add: p Some rec)
    moreover from "1.IH" [OF p [symmetric, unfolded Some] refl] rec
    have "fst (pickMessage b'') = None" by simp
    ultimately show ?thesis by simp
  qed
qed

lemma receive_pick_all:
  "fst (pickMessage \<lparr>m_buf = xs\<rparr>) = None \<Longrightarrow>
   receive \<lparr>m_buf = xs\<rparr> chunks = pick_all \<lparr>m_buf = xs @ concat chunks\<rparr>"
proof (induction chunks arbitrary: xs)
  case Nil
  then obtain b' where "pickMessage \<lparr>m_buf = xs\<rparr> = (None, b')"
    by (cases "pickMessage \<lparr>m_buf = xs\<rparr>") auto
  from pick_all_None [OF this] show ?case by simp
next
  case (Cons c chunks)
  obtain ms1 b1 where p: "pick_all \<lparr>m_buf = xs @ c\<rparr> = (ms1, b1)"
    by (cases "pick_all \<lparr>m_buf = xs @ c\<rparr>")
  obtain r1 where r1: "b1 = \<lparr>m_buf = r1\<rparr>" by (cases b1) simp
  from pick_all_drained [of "\<lparr>m_buf = xs @ c\<rparr>"] p r1
  have "fst (pickMessage \<lparr>m_buf = r1\<rparr>) = None" by simp
  from Cons.IH [OF this]
  have ih: "receive \<lparr>m_buf = r1\<rparr> chunks = pick_all \<lparr>m_buf = r1 @ concat chunks\<rparr>" .
  from pick_all_more [OF p, of "concat chunks"] r1
  have "pick_all \<lparr>m_buf = xs @ c @ concat chunks\<rparr>
          = (ms1 @ fst (pick_all \<lparr>m_buf = r1 @ concat chunks\<rparr>),
             snd (pick_all \<lparr>m_buf = r1 @ concat chunks\<rparr>))"
    by simp
  with p r1 ih show ?case
    by (simp add: append_buf_def split: prod.splits)
qed

lemma appendWithSep_all:
  "m_buf (foldl appendWithSep b ms) = m_buf b @ concat (map frame ms)"
  by (induction ms arbitrary: b) (simp_all add: appendWithSep_def frame_def)

lemma pickMessage_incomplete:
  assumes "length m < 2 ^ 32" "k < length (frame m)"
  shows "pickMessage \<lparr>m_buf = take k (frame m)\<rparr> = (None, \<lparr>m_buf = take k (frame m)\<rparr>)"
proof -
  define xs where "xs = take k (frame m)"
  have fl: "length (frame m) = 4 + length m" by (simp add: frame_def length_header_4)
  with assms(2) have lx: "length xs = k" by (simp add: xs_def)
  have "pickMessage \<lparr>m_buf = xs\<rparr> = (None, \<lparr>m_buf = xs\<rparr>)"
  proof (cases "k < 4")
    case True
    with lx show ?thesis by (simp add: pickMessage_def)
  next
    case False
    then have "take 4 xs = length_header (length m)"
      by (simp add: xs_def frame_def length_header_4 min_def)
    with assms fl lx show ?thesis
      by (simp add: pickMessage_def Let_def header_roundtrip)
  qed
  then show ?thesis unfolding xs_def .
qed

text \<open>
  Claim C7. Under framing mode 1, let \<open>ms\<close> be messages shorter than \<open>2^32\<close> bytes
  appended with \<open>appendWithSep\<close>, and let the resulting bytes arrive in any chunks.
  A receiver that appends every chunk and picks all complete messages after each one
  gets exactly \<open>ms\<close>, in order, and ends with an empty buffer. \<open>pickMessage\<close> is a
  total function; when it returns false the buffer is unchanged, and it returns false
  on every proper prefix of a framed message.
\<close>

theorem length_prefixed_framing_roundtrip:
  assumes "\<forall>m\<in>set ms. length m < 2 ^ 32"
      and "concat chunks = m_buf (foldl appendWithSep \<lparr>m_buf = []\<rparr> ms)"
  shows "receive \<lparr>m_buf = []\<rparr> chunks = (ms, \<lparr>m_buf = []\<rparr>)
       \<and> (pickMessage b = (None, b') \<longrightarrow> b' = b)
       \<and> (\<forall>m k. length m < 2 ^ 32 \<and> k < length (m_buf (appendWithSep \<lparr>m_buf = []\<rparr> m)) \<longrightarrow>
             pickMessage \<lparr>m_buf = take k (m_buf (appendWithSep \<lparr>m_buf = []\<rparr> m))\<rparr>
               = (None, \<lparr>m_buf = take k (m_buf (appendWithSep \<lparr>m_buf = []\<rparr> m))\<rparr>))"
proof -
  have e: "fst (pickMessage \<lparr>m_buf = []\<rparr>) = None" by (simp add: pickMessage_def)
  from assms(2) have c: "concat chunks = concat (map frame ms)"
    by (simp add: appendWithSep_all)
  from pick_all_frames [OF assms(1) e]
  have "pick_all \<lparr>m_buf = concat (map frame ms)\<rparr> = (ms, \<lparr>m_buf = []\<rparr>)" by simp
  with receive_pick_all [OF e, of chunks] c
  have 1: "receive \<lparr>m_buf = []\<rparr> chunks = (ms, \<lparr>m_buf = []\<rparr>)" by simp
  have f: "m_buf (appendWithSep \<lparr>m_buf = []\<rparr> m) = frame m" for m
    by (simp add: appendWithSep_def frame_def)
  from 1 pickMessage_None [of b b'] pickMessage_incomplete show ?thesis
    by (simp add: f)
qed


theorem length_prefixed_framing_roundtrip_witness:
  "receive \<lparr>m_buf = []\<rparr> [[2, 0, 0], [0, 104, 101, 1, 0], [0, 0, 119]]
     = ([[104, 101], [119]], \<lparr>m_buf = []\<rparr>)
   \<and> pickMessage \<lparr>m_buf = [2, 0, 0, 0, 104]\<rparr> = (None, \<lparr>m_buf = [2, 0, 0, 0, 104]\<rparr>)"
proof -
  have h1: "\<forall>m\<in>set [[104, 101], [119 :: byte]]. length m < 2 ^ 32" by simp
  have h2: "concat [[2, 0, 0], [0, 104, 101, 1, 0], [0, 0, 119]]
            = m_buf (foldl appendWithSep \<lparr>m_buf = []\<rparr> [[104, 101], [119]])"
    by (simp add: appendWithSep_def length_header_def)
  have h3: "m_buf (appendWithSep \<lparr>m_buf = []\<rparr> [104, 101]) = [2, 0, 0, 0, 104, 101]"
    by (simp add: appendWithSep_def length_header_def)
  note t = length_prefixed_framing_roundtrip [OF h1 h2]
  from t have a: "receive \<lparr>m_buf = []\<rparr> [[2, 0, 0], [0, 104, 101, 1, 0], [0, 0, 119]]
     = ([[104, 101], [119]], \<lparr>m_buf = []\<rparr>)"
    by blast
  from t have "length [104, 101 :: byte] < 2 ^ 32
      \<and> 5 < length (m_buf (appendWithSep \<lparr>m_buf = []\<rparr> [104, 101])) \<longrightarrow>
      pickMessage \<lparr>m_buf = take 5 (m_buf (appendWithSep \<lparr>m_buf = []\<rparr> [104, 101]))\<rparr>
        = (None, \<lparr>m_buf = take 5 (m_buf (appendWithSep \<lparr>m_buf = []\<rparr> [104, 101]))\<rparr>)"
    by blast
  then have b: "pickMessage \<lparr>m_buf = [2, 0, 0, 0, 104]\<rparr> = (None, \<lparr>m_buf = [2, 0, 0, 0, 104]\<rparr>)"
    unfolding h3 by simp
  from a b show ?thesis by simp
qed

section \<open>Properties of the interposed connect\<close>

lemma whitelisted_orig [simp]:
  "is_proc_whitelisted (g\<lparr>orig_connect := f\<rparr>) env = is_proc_whitelisted g env"
  by (simp add: is_proc_whitelisted_def)

lemma blocked_orig [simp]:
  "is_blocked (g\<lparr>orig_connect := f\<rparr>) env t = is_blocked g env t"
  by (simp add: is_blocked_def is_in_intercept_time_def)







end
